theory Spec2Isabelle
  imports Main "HOL-Library.AList"
begin

section \<open>Values exchanged on the socket\<close>

text \<open>
  The bridge server (\<^verbatim>\<open>mcp-server/src/server.ts\<close>) reads whatever \<^verbatim>\<open>JSON.parse\<close>
  returns, so inbound frames are JSON values. Numbers are kept as integers: the code only
  tests them for truthiness. An object is the list of its own properties.
\<close>

datatype json =
    JNull
  | JBool bool
  | JNum int
  | JStr string
  | JArr "json list"
  | JObj "(string \<times> json) list"

text \<open>Property access \<^verbatim>\<open>message.k\<close> on a value that is not \<^verbatim>\<open>null\<close>: only an object has
  the properties the code asks for; everything else yields \<^verbatim>\<open>undefined\<close> (\<open>None\<close>).\<close>

fun field :: "string \<Rightarrow> json \<Rightarrow> json option" where
  "field k (JObj kvs) = map_of kvs k"
| "field k _ = None"

text \<open>JavaScript truthiness of a JSON value, and of a value that may be \<^verbatim>\<open>undefined\<close>.\<close>

fun truthy :: "json \<Rightarrow> bool" where
  "truthy JNull = False"
| "truthy (JBool b) = b"
| "truthy (JNum n) = (n \<noteq> 0)"
| "truthy (JStr s) = (s \<noteq> [])"
| "truthy (JArr _) = True"
| "truthy (JObj _) = True"

fun truthy_opt :: "json option \<Rightarrow> bool" where
  "truthy_opt None = False"
| "truthy_opt (Some v) = truthy v"

text \<open>\<^verbatim>\<open>interface WSMessage { requestId?: string; type: string; data?: unknown }\<close>, which is
  also the shape of the object the server stringifies in \<^verbatim>\<open>sendToPlugin\<close>.\<close>

record WSMessage =
  requestId :: "string option"
  type :: string
  data :: "json option"

section \<open>The bridge server\<close>

datatype ReadyState = CONNECTING | OPEN | CLOSING | CLOSED

definition REQUEST_TIMEOUT_MS :: nat where
  "REQUEST_TIMEOUT_MS = 15000"

text \<open>The errors the server rejects a call with:
  \<^item> \<open>NoPluginConnected\<close>: \<^verbatim>\<open>"No plugin connected. Make sure the LoL Client is running with PenguLoader."\<close>
  \<^item> \<open>PluginDisconnected\<close>: \<^verbatim>\<open>"Plugin disconnected"\<close>
  \<^item> \<open>TimedOut type\<close>: \<^verbatim>\<open>`Request ${type} timed out after ${REQUEST_TIMEOUT_MS}ms`\<close>
  \<^item> \<open>RemoteError e\<close>: \<^verbatim>\<open>new Error(error)\<close> for the \<^verbatim>\<open>error\<close> property of an inbound message.\<close>

datatype Error =
    NoPluginConnected
  | PluginDisconnected
  | TimedOut string
  | RemoteError json

text \<open>What a promise is settled with: \<^verbatim>\<open>resolve({ type, data, success })\<close> or
  \<^verbatim>\<open>reject(error)\<close>.\<close>

datatype outcome =
    Resolved "json option" "json option" "json option"
  | Rejected Error

text \<open>\<^verbatim>\<open>interface PendingRequest { resolve; reject; timer }\<close>. The two closures belong to
  the promise that \<^verbatim>\<open>sendToPlugin\<close> created, so the entry holds that promise's number.\<close>

record PendingRequest =
  promise :: nat
  timer :: nat

text \<open>A running \<^verbatim>\<open>setTimeout\<close>: when it is due, and what its callback closes over
  (\<^verbatim>\<open>requestId\<close>, \<^verbatim>\<open>type\<close>, \<^verbatim>\<open>reject\<close>).\<close>

record Timeout =
  due :: nat
  t_requestId :: string
  t_type :: string
  t_promise :: nat

text \<open>
  The module's state. \<open>pendingRequests\<close> is the \<^verbatim>\<open>Map\<close>, in insertion order. \<open>timers\<close>
  holds the timeouts that are set and neither fired nor cleared. \<open>settled\<close> records every
  call of a promise's \<^verbatim>\<open>resolve\<close> or \<^verbatim>\<open>reject\<close>, in order, so that settling twice
  would show. \<open>sent\<close> records every \<^verbatim>\<open>send\<close> with the socket it went to. \<open>readyState\<close>
  is the \<^verbatim>\<open>readyState\<close> of each socket, \<open>now\<close> the clock in milliseconds. Console output
  is not part of the state.
\<close>

record server =
  now :: nat
  pluginClient :: "nat option"
  readyState :: "nat \<Rightarrow> ReadyState"
  pendingRequests :: "(string \<times> PendingRequest) list"
  timers :: "nat \<rightharpoonup> Timeout"
  nextTimer :: nat
  nextPromise :: nat
  settled :: "(nat \<times> outcome) list"
  sent :: "(nat \<times> WSMessage) list"

definition init :: server where
  "init = \<lparr> now = 0, pluginClient = None, readyState = (\<lambda>_. CLOSED), pendingRequests = [],
            timers = Map.empty, nextTimer = 0, nextPromise = 0, settled = [], sent = [] \<rparr>"

definition settle :: "nat \<Rightarrow> outcome \<Rightarrow> server \<Rightarrow> server" where
  "settle c out s = s\<lparr> settled := settled s @ [(c, out)] \<rparr>"

definition clearTimeout :: "nat \<Rightarrow> server \<Rightarrow> server" where
  "clearTimeout t s = s\<lparr> timers := (timers s)(t := None) \<rparr>"

definition pending_delete :: "string \<Rightarrow> server \<Rightarrow> server" where
  "pending_delete k s = s\<lparr> pendingRequests := AList.delete k (pendingRequests s) \<rparr>"

text \<open>\<^verbatim>\<open>wss.on("connection")\<close>: the handler only stores the new socket.\<close>

definition on_connection :: "nat \<Rightarrow> server \<Rightarrow> server" where
  "on_connection ws s = s\<lparr> pluginClient := Some ws \<rparr>"

text \<open>\<^verbatim>\<open>requestId && pendingRequests.has(requestId)\<close>: the keys of the map are strings, so
  only a non-empty string can be found.\<close>

fun matching :: "json option \<Rightarrow> server \<Rightarrow> (string \<times> PendingRequest) option" where
  "matching (Some (JStr k)) s =
     (if k \<noteq> [] then (case map_of (pendingRequests s) k of
                          None \<Rightarrow> None
                        | Some p \<Rightarrow> Some (k, p))
      else None)"
| "matching _ s = None"

text \<open>\<^verbatim>\<open>if (error)\<close>: the \<^verbatim>\<open>error\<close> property when it is there and truthy.\<close>

fun truthy_error :: "json option \<Rightarrow> json option" where
  "truthy_error None = None"
| "truthy_error (Some e) = (if truthy e then Some e else None)"

text \<open>
  \<^verbatim>\<open>new Error(error)\<close> converts its argument to a string, and that conversion throws a
  \<^verbatim>\<open>TypeError\<close> for some values \<^verbatim>\<open>JSON.parse\<close> can return. An object is converted by its
  \<^verbatim>\<open>toString\<close>, then its \<^verbatim>\<open>valueOf\<close>, whichever is callable and returns a primitive: an
  own property \<^verbatim>\<open>toString\<close> of a parsed object is never callable and hides the inherited
  one, and \<^verbatim>\<open>valueOf\<close> is then either an own property, not callable, or the inherited one,
  which returns the object itself; so the conversion throws exactly when the object has an
  own \<^verbatim>\<open>toString\<close>. An array is converted by joining the conversions of its elements
  (\<^verbatim>\<open>null\<close> gives the empty string), so it throws when one of them does.
\<close>

fun toString_throws :: "json \<Rightarrow> bool" where
  "toString_throws JNull = False"
| "toString_throws (JBool b) = False"
| "toString_throws (JNum n) = False"
| "toString_throws (JStr s) = False"
| "toString_throws (JArr xs) = list_ex toString_throws xs"
| "toString_throws (JObj kvs) = (map_of kvs ''toString'' \<noteq> None)"

text \<open>\<^verbatim>\<open>ws.on("message")\<close>. The argument is the result of \<^verbatim>\<open>JSON.parse(raw.toString())\<close>,
  \<open>None\<close> when it throws. Destructuring \<^verbatim>\<open>null\<close> throws too; both land in the
  \<^verbatim>\<open>catch\<close>, which only logs. So does a throw of \<^verbatim>\<open>new Error(error)\<close>: the timer is
  cleared and the entry deleted by then, and \<^verbatim>\<open>pending.reject\<close> is not reached. The
  \<^verbatim>\<open>else\<close> branch only logs, whether or not formatting its line throws.\<close>

definition on_message :: "nat \<Rightarrow> json option \<Rightarrow> server \<Rightarrow> server" where
  "on_message ws raw s =
     (case raw of
        None \<Rightarrow> s
      | Some JNull \<Rightarrow> s
      | Some message \<Rightarrow>
          (case matching (field ''requestId'' message) s of
             Some (k, pending) \<Rightarrow>
               (let s1 = clearTimeout (timer pending) s;
                    s2 = pending_delete k s1
                in case truthy_error (field ''error'' message) of
                     Some e \<Rightarrow>
                       if toString_throws e then s2
                       else settle (promise pending) (Rejected (RemoteError e)) s2
                   | None \<Rightarrow> settle (promise pending)
                          (Resolved (field ''type'' message) (field ''data'' message)
                             (field ''success'' message)) s2)
           | None \<Rightarrow> s))"

text \<open>The loop of the close handler, \<^verbatim>\<open>for (const [id, pending] of pendingRequests)\<close>,
  which deletes the entry it visits: the iterator of a \<^verbatim>\<open>Map\<close> is live, so each round
  takes the first entry that is left.\<close>

function reject_all :: "server \<Rightarrow> server" where
  "reject_all s =
     (case pendingRequests s of
        [] \<Rightarrow> s
      | (k, pending) # _ \<Rightarrow>
          reject_all (pending_delete k
            (settle (promise pending) (Rejected PluginDisconnected)
              (clearTimeout (timer pending) s))))"
  by pat_completeness auto
termination
proof (relation "measure (\<lambda>s. length (pendingRequests s))")
  show "wf (measure (\<lambda>s. length (pendingRequests s)))" by simp
next
  fix s :: server and x :: "string \<times> PendingRequest" and xs k pending
  assume "pendingRequests s = x # xs" and "(k, pending) = x"
  then have "length (AList.delete k (pendingRequests s)) \<le> length xs"
    by (auto simp: AList.delete_eq)
  then show "(pending_delete k (settle (promise pending) (Rejected PluginDisconnected)
                (clearTimeout (timer pending) s)), s) \<in> measure (\<lambda>s. length (pendingRequests s))"
    using \<open>pendingRequests s = x # xs\<close>
    by (simp add: pending_delete_def settle_def clearTimeout_def)
qed

declare reject_all.simps [simp del]

text \<open>\<^verbatim>\<open>ws.on("close")\<close>.\<close>

definition on_close :: "nat \<Rightarrow> server \<Rightarrow> server" where
  "on_close ws s =
     reject_all (if pluginClient s = Some ws then s\<lparr> pluginClient := None \<rparr> else s)"

text \<open>The callback of the timer set in \<^verbatim>\<open>sendToPlugin\<close>.\<close>

definition on_timeout :: "Timeout \<Rightarrow> server \<Rightarrow> server" where
  "on_timeout T s =
     settle (t_promise T) (Rejected (TimedOut (t_type T))) (pending_delete (t_requestId T) s)"

text \<open>\<^verbatim>\<open>sendToPlugin(type, data)\<close>. The first argument is what \<^verbatim>\<open>randomUUID()\<close> returns in
  this call. The result is the new promise and the state.\<close>

definition sendToPlugin :: "string \<Rightarrow> string \<Rightarrow> json option \<Rightarrow> server \<Rightarrow> nat \<times> server" where
  "sendToPlugin uuid ty dat s =
     (let c = nextPromise s;
          s0 = s\<lparr> nextPromise := Suc c \<rparr>
      in case pluginClient s0 of
           None \<Rightarrow> (c, settle c (Rejected NoPluginConnected) s0)
         | Some ws \<Rightarrow>
             if readyState s0 ws \<noteq> OPEN then (c, settle c (Rejected NoPluginConnected) s0)
             else
               (let t = nextTimer s0;
                    s1 = s0\<lparr> nextTimer := Suc t,
                             timers := (timers s0)(t \<mapsto>
                               \<lparr> due = now s0 + REQUEST_TIMEOUT_MS, t_requestId = uuid,
                                 t_type = ty, t_promise = c \<rparr>) \<rparr>;
                    s2 = s1\<lparr> pendingRequests :=
                              AList.update uuid \<lparr> promise = c, timer = t \<rparr> (pendingRequests s1) \<rparr>;
                    s3 = s2\<lparr> sent := sent s2 @
                              [(ws, \<lparr> requestId = Some uuid, type = ty, data = dat \<rparr>)] \<rparr>
                in (c, s3)))"

text \<open>
  What can happen to the server, one event at a time (the event loop runs each handler to
  completion):
  \<^item> \<open>Connection ws\<close>: the library hands over a socket, open;
  \<^item> \<open>Message ws raw\<close>, \<open>Close ws\<close>, \<open>SocketError ws\<close>: the events of a socket (at
    \<open>Close\<close> its \<^verbatim>\<open>readyState\<close> is \<^verbatim>\<open>CLOSED\<close>; the error handler only logs);
  \<^item> \<open>Closing ws\<close>: the closing handshake of a socket starts;
  \<^item> \<open>Invoke uuid type data\<close>: a tool calls \<^verbatim>\<open>sendToPlugin(type, data)\<close>;
  \<^item> \<open>Fire t\<close>: timer \<open>t\<close> runs its callback, if it is still set and due;
  \<^item> \<open>Advance d\<close>: \<open>d\<close> milliseconds pass.
\<close>

datatype event =
    Connection nat
  | Message nat "json option"
  | Close nat
  | SocketError nat
  | Closing nat
  | Invoke string string "json option"
  | Fire nat
  | Advance nat

fun step :: "event \<Rightarrow> server \<Rightarrow> server" where
  "step (Connection ws) s = on_connection ws (s\<lparr> readyState := (readyState s)(ws := OPEN) \<rparr>)"
| "step (Message ws raw) s = on_message ws raw s"
| "step (Close ws) s = on_close ws (s\<lparr> readyState := (readyState s)(ws := CLOSED) \<rparr>)"
| "step (SocketError ws) s = s"
| "step (Closing ws) s = s\<lparr> readyState := (readyState s)(ws := CLOSING) \<rparr>"
| "step (Invoke uuid ty dat) s = snd (sendToPlugin uuid ty dat s)"
| "step (Fire t) s =
     (case timers s t of
        None \<Rightarrow> s
      | Some T \<Rightarrow> if due T \<le> now s then on_timeout T (s\<lparr> timers := (timers s)(t := None) \<rparr>)
                  else s)"
| "step (Advance d) s = s\<lparr> now := now s + d \<rparr>"

fun run :: "event list \<Rightarrow> server \<Rightarrow> server" where
  "run [] s = s"
| "run (e # es) s = run es (step e s)"

fun invoke_ids :: "event list \<Rightarrow> string list" where
  "invoke_ids [] = []"
| "invoke_ids (Invoke uuid ty dat # es) = uuid # invoke_ids es"
| "invoke_ids (_ # es) = invoke_ids es"

section \<open>The plugin\<close>

text \<open>
  \<^verbatim>\<open>lol-plugin/src/index.ts\<close>. A parsed frame is a \<open>WSMessage\<close>, as the code declares it.
  What the plugin sends is the object it stringifies: \<^verbatim>\<open>{ requestId, type, data, success }\<close>
  in \<^verbatim>\<open>sendResponse\<close>, \<^verbatim>\<open>{ requestId, error }\<close> in \<^verbatim>\<open>sendError\<close>.
\<close>

datatype reply =
    Response string string json bool
  | ErrorResponse string string

fun reply_id :: "reply \<Rightarrow> string" where
  "reply_id (Response rid ty dat success) = rid"
| "reply_id (ErrorResponse rid err) = rid"

definition RECONNECT_BASE_MS :: nat where
  "RECONNECT_BASE_MS = 1000"

definition RECONNECT_MAX_MS :: nat where
  "RECONNECT_MAX_MS = 30000"

text \<open>
  The part of the page the plugin touches: \<open>styleEl\<close> is the \<^verbatim>\<open>textContent\<close> of the element
  with id \<^verbatim>\<open>mcp-theme-injector\<close>, \<open>None\<close> when there is no such element; \<open>hasHead\<close> says
  that \<^verbatim>\<open>document.head\<close> is not \<^verbatim>\<open>null\<close>; \<open>cleanSnapshot\<close> is what
  \<^verbatim>\<open>getCleanDOMSnapshot()\<close> does on this page: it returns the HTML (\<open>Inr\<close>) or throws, and
  then \<open>Inl\<close> holds \<^verbatim>\<open>err instanceof Error ? err.message : String(err)\<close>. The walk over the
  DOM itself is the browser's and is not modelled.
\<close>

record document =
  styleEl :: "string option"
  hasHead :: bool
  cleanSnapshot :: "string + string"

text \<open>\<^verbatim>\<open>injectCSS(css)\<close>. Without a style element it appends a new one to
  \<^verbatim>\<open>document.head\<close>, which throws a \<^verbatim>\<open>TypeError\<close> when the head is \<^verbatim>\<open>null\<close>.\<close>

definition injectCSS :: "string \<Rightarrow> document \<Rightarrow> string + document" where
  "injectCSS css d =
     (case styleEl d of
        None \<Rightarrow> if hasHead d then Inr (d\<lparr> styleEl := Some css \<rparr>)
                else Inl ''Cannot read properties of null (reading 'appendChild')''
      | Some _ \<Rightarrow> Inr (d\<lparr> styleEl := Some css \<rparr>))"

text \<open>The plugin's state: the module variables \<open>ws\<close> and \<open>reconnectAttempt\<close>, the
  \<^verbatim>\<open>readyState\<close> of the sockets it created, the delays of the
  \<^verbatim>\<open>setTimeout(connectWebSocket, delay)\<close> calls that have not fired yet, the page, and what
  was sent on which socket.\<close>

record agent =
  ws :: "nat option"
  wsState :: "nat \<Rightarrow> ReadyState"
  nextSocket :: nat
  reconnectAttempt :: nat
  reconnects :: "nat list"
  doc :: document
  outbox :: "(nat \<times> reply) list"

definition connectWebSocket :: "agent \<Rightarrow> agent" where
  "connectWebSocket a =
     (let fresh = a\<lparr> ws := Some (nextSocket a),
                      wsState := (wsState a)(nextSocket a := CONNECTING),
                      nextSocket := Suc (nextSocket a) \<rparr>
      in case ws a of
           None \<Rightarrow> fresh
         | Some w \<Rightarrow> if wsState a w = CONNECTING \<or> wsState a w = OPEN then a else fresh)"

definition scheduleReconnect :: "agent \<Rightarrow> agent" where
  "scheduleReconnect a =
     (let delay = min (RECONNECT_BASE_MS * 2 ^ reconnectAttempt a) RECONNECT_MAX_MS
      in a\<lparr> reconnectAttempt := Suc (reconnectAttempt a),
             reconnects := reconnects a @ [delay] \<rparr>)"

definition sendResponse :: "string \<Rightarrow> string \<Rightarrow> json \<Rightarrow> bool \<Rightarrow> agent \<Rightarrow> agent" where
  "sendResponse rid ty dat success a =
     (case ws a of
        None \<Rightarrow> a
      | Some w \<Rightarrow> if wsState a w \<noteq> OPEN then a
                  else a\<lparr> outbox := outbox a @ [(w, Response rid ty dat success)] \<rparr>)"

definition sendError :: "string \<Rightarrow> string \<Rightarrow> agent \<Rightarrow> agent" where
  "sendError rid err a =
     (case ws a of
        None \<Rightarrow> a
      | Some w \<Rightarrow> if wsState a w \<noteq> OPEN then a
                  else a\<lparr> outbox := outbox a @ [(w, ErrorResponse rid err)] \<rparr>)"

text \<open>\<^verbatim>\<open>typeof\<close> on a JSON value or \<^verbatim>\<open>undefined\<close>.\<close>

fun typeof :: "json option \<Rightarrow> string" where
  "typeof None = ''undefined''"
| "typeof (Some JNull) = ''object''"
| "typeof (Some (JBool _)) = ''boolean''"
| "typeof (Some (JNum _)) = ''number''"
| "typeof (Some (JStr _)) = ''string''"
| "typeof (Some (JArr _)) = ''object''"
| "typeof (Some (JObj _)) = ''object''"

fun as_string :: "json option \<Rightarrow> string" where
  "as_string (Some (JStr s)) = s"
| "as_string _ = []"

text \<open>\<^verbatim>\<open>handleMessage(message)\<close>. \<^verbatim>\<open>!requestId\<close> holds for a missing and for an empty
  \<^verbatim>\<open>requestId\<close>. \<open>as_string\<close> is only read where \<^verbatim>\<open>typeof css\<close> is \<^verbatim>\<open>'string'\<close>.\<close>

definition handleMessage :: "WSMessage \<Rightarrow> agent \<Rightarrow> agent" where
  "handleMessage message a =
     (case requestId message of
        None \<Rightarrow> a
      | Some rid \<Rightarrow>
          if rid = [] then a
          else if type message = ''GET_DOM'' then
            (case cleanSnapshot (doc a) of
               Inr snapshot \<Rightarrow> sendResponse rid ''DOM_SNAPSHOT'' (JStr snapshot) True a
             | Inl msg \<Rightarrow> sendError rid (''Failed to capture DOM: '' @ msg) a)
          else if type message = ''INJECT_CSS'' then
            (let css = data message
             in if \<not> truthy_opt css \<or> typeof css \<noteq> ''string''
                then sendError rid ''Invalid CSS: expected a non-empty string'' a
                else (case injectCSS (as_string css) (doc a) of
                        Inr d \<Rightarrow> sendResponse rid ''CSS_INJECTED'' JNull True (a\<lparr> doc := d \<rparr>)
                      | Inl msg \<Rightarrow> sendError rid (''Failed to inject CSS: '' @ msg) a))
          else sendError rid (''Unknown message type: '' @ type message) a)"

text \<open>
  The plugin's events:
  \<^item> \<open>Load\<close>: \<^verbatim>\<open>load()\<close>;
  \<^item> \<open>SocketOpen w\<close>, \<open>SocketMessage w m\<close>, \<open>SocketClose w\<close>, \<open>SocketFail w\<close>: the listeners
    of socket \<open>w\<close>, with \<open>m\<close> the result of \<^verbatim>\<open>JSON.parse(event.data)\<close> (\<open>None\<close> when it
    throws; the \<^verbatim>\<open>catch\<close> and the error listener only log);
  \<^item> \<open>ReconnectTimer\<close>: the oldest pending \<^verbatim>\<open>setTimeout(connectWebSocket, delay)\<close> fires.
\<close>

datatype agent_event =
    Load
  | SocketOpen nat
  | SocketMessage nat "WSMessage option"
  | SocketClose nat
  | SocketFail nat
  | ReconnectTimer

fun agent_step :: "agent_event \<Rightarrow> agent \<Rightarrow> agent" where
  "agent_step Load a = connectWebSocket a"
| "agent_step (SocketOpen w) a = (a\<lparr> wsState := (wsState a)(w := OPEN) \<rparr>)\<lparr> reconnectAttempt := 0 \<rparr>"
| "agent_step (SocketMessage w None) a = a"
| "agent_step (SocketMessage w (Some m)) a = handleMessage m a"
| "agent_step (SocketClose w) a =
     scheduleReconnect ((a\<lparr> wsState := (wsState a)(w := CLOSED) \<rparr>)\<lparr> ws := None \<rparr>)"
| "agent_step (SocketFail w) a = a"
| "agent_step ReconnectTimer a =
     (case reconnects a of
        [] \<Rightarrow> a
      | _ # rest \<Rightarrow> connectWebSocket (a\<lparr> reconnects := rest \<rparr>))"

fun agent_run :: "agent_event list \<Rightarrow> agent \<Rightarrow> agent" where
  "agent_run [] a = a"
| "agent_run (e # es) a = agent_run es (agent_step e a)"

text \<open>A connection attempt that fails, once per socket of the list: the reconnect timer
  fires, \<^verbatim>\<open>connectWebSocket\<close> runs, and the socket closes without having opened.\<close>

fun failed_attempts :: "nat list \<Rightarrow> agent_event list" where
  "failed_attempts [] = []"
| "failed_attempts (w # rest) = ReconnectTimer # SocketClose w # failed_attempts rest"

section \<open>Notions used in the statements\<close>

text \<open>The three removal paths of the server (a matching message, the timer, the close
  handler) do the same things to one entry: clear its timer, delete it from the map, and
  settle its promise with \<open>out\<close>; with \<open>None\<close> the promise is not settled, which is what
  is left of the message handler when \<^verbatim>\<open>new Error(error)\<close> throws.\<close>

definition finish :: "string \<Rightarrow> PendingRequest \<Rightarrow> outcome option \<Rightarrow> server \<Rightarrow> server" where
  "finish k p out s =
     (let s' = pending_delete k (clearTimeout (timer p) s)
      in case out of None \<Rightarrow> s' | Some r \<Rightarrow> settle (promise p) r s')"

text \<open>What \<^verbatim>\<open>ws.on("message")\<close> settles a matched call with; \<open>None\<close> when it settles
  nothing because \<^verbatim>\<open>new Error(error)\<close> throws.\<close>

definition reply_outcome :: "json \<Rightarrow> outcome option" where
  "reply_outcome m =
     (case truthy_error (field ''error'' m) of
        Some e \<Rightarrow> if toString_throws e then None else Some (Rejected (RemoteError e))
      | None \<Rightarrow> Some (Resolved (field ''type'' m) (field ''data'' m) (field ''success'' m)))"

text \<open>What \<open>finish\<close> adds to the record of settlements.\<close>

fun settles :: "nat \<Rightarrow> outcome option \<Rightarrow> (nat \<times> outcome) list" where
  "settles c None = []"
| "settles c (Some r) = [(c, r)]"

text \<open>The state after the close handler's loop has run over the entries \<open>xs\<close>.\<close>

definition drained :: "(string \<times> PendingRequest) list \<Rightarrow> server \<Rightarrow> server" where
  "drained xs s = s\<lparr> pendingRequests := [],
       timers := (\<lambda>t. if t \<in> set (map (timer \<circ> snd) xs) then None else timers s t),
       settled := settled s @ map (\<lambda>(k, p). (promise p, Rejected PluginDisconnected)) xs \<rparr>"

text \<open>Everything promise \<open>c\<close> has been settled with so far, in order.\<close>

definition settlements :: "nat \<Rightarrow> server \<Rightarrow> outcome list" where
  "settlements c s = map snd (filter (\<lambda>x. fst x = c) (settled s))"

text \<open>An event carries the call registered under \<open>k\<close> with timer \<open>t\<close>: a message whose
  \<^verbatim>\<open>requestId\<close> is \<open>k\<close>, the firing of \<open>t\<close>, or a close.\<close>

fun carries :: "string \<Rightarrow> nat \<Rightarrow> event \<Rightarrow> bool" where
  "carries k t (Message sock (Some m)) = (field ''requestId'' m = Some (JStr k))"
| "carries k t (Fire t') = (t' = t)"
| "carries k t (Close sock) = True"
| "carries k t _ = False"

text \<open>
  The invariant of the server's state: the map has one entry per key and per promise; the
  timer of every entry is set and its callback closes over that entry's key and promise;
  every timer that is set belongs to the entry under its key; and a promise has been
  settled at most once, and not at all while it is in the map or before the server has
  created it.
\<close>

definition consistent :: "server \<Rightarrow> bool" where
  "consistent s \<longleftrightarrow>
     distinct (map fst (pendingRequests s)) \<and>
     distinct (map (promise \<circ> snd) (pendingRequests s)) \<and>
     (\<forall>k p. (k, p) \<in> set (pendingRequests s) \<longrightarrow>
        promise p < nextPromise s \<and>
        (\<exists>T. timers s (timer p) = Some T \<and> t_requestId T = k \<and> t_promise T = promise p)) \<and>
     (\<forall>t T. timers s t = Some T \<longrightarrow>
        t < nextTimer s \<and>
        (t_requestId T, \<lparr> promise = t_promise T, timer = t \<rparr>) \<in> set (pendingRequests s)) \<and>
     (\<forall>c. length (filter (\<lambda>x. fst x = c) (settled s)) \<le>
        (if c < nextPromise s \<and> c \<notin> promise ` snd ` set (pendingRequests s) then 1 else 0))"

text \<open>Promise \<open>c\<close> has been created, is not settled, and nothing in the state can still
  settle it: no entry of the map and no timer holds it.\<close>

definition orphaned :: "nat \<Rightarrow> server \<Rightarrow> bool" where
  "orphaned c s \<longleftrightarrow>
     c < nextPromise s \<and>
     list_all (\<lambda>(k, p). promise p \<noteq> c) (pendingRequests s) \<and>
     (\<forall>t. map_option t_promise (timers s t) \<noteq> Some c) \<and>
     settlements c s = []"

text \<open>The deadline as the specification words it: now plus the caller's timeout when
  one is given, now plus 15 seconds otherwise.\<close>

definition spec_deadline :: "nat \<Rightarrow> nat option \<Rightarrow> nat" where
  "spec_deadline t timeout = t + (case timeout of None \<Rightarrow> 15000 | Some ms \<Rightarrow> ms)"

section \<open>Example executions\<close>

text \<open>Two calls on one connection, and an error reply to the first.\<close>

definition two_calls :: "event list" where
  "two_calls = [Connection 0, Invoke ''u1'' ''GET_DOM'' None,
                Invoke ''u2'' ''INJECT_CSS'' (Some (JStr ''a{}''))]"

definition error_u1 :: json where
  "error_u1 = JObj [(''requestId'', JStr ''u1''), (''error'', JStr ''boom'')]"

text \<open>One call, answered by the frame
  \<^verbatim>\<open>{"requestId": "u1", "error": {"toString": 1}}\<close>.\<close>

definition unconvertible_error_u1 :: json where
  "unconvertible_error_u1 =
     JObj [(''requestId'', JStr ''u1''), (''error'', JObj [(''toString'', JNum 1)])]"

definition lost_call :: "event list" where
  "lost_call = [Connection 0, Invoke ''u1'' ''GET_DOM'' None,
                Message 0 (Some unconvertible_error_u1)]"

text \<open>Socket 1 displaces socket 0, a call goes out on socket 1, socket 0 closes, and
  15 seconds pass without any message.\<close>

definition stale_close :: "event list" where
  "stale_close = [Connection 0, Connection 1, Invoke ''u1'' ''GET_DOM'' None, Close 0,
                  Advance 15000]"

text \<open>The plugin as the module starts on a page, that page with a style element already
  injected, and the plugin connected on it.\<close>

definition agent_init :: "document \<Rightarrow> agent" where
  "agent_init d = \<lparr> ws = None, wsState = (\<lambda>_. CLOSED), nextSocket = 0, reconnectAttempt = 0,
                    reconnects = [], doc = d, outbox = [] \<rparr>"

definition themed_page :: document where
  "themed_page = \<lparr> styleEl = Some ''a{}'', hasHead = True,
                   cleanSnapshot = Inr ''<body></body>'' \<rparr>"

definition connected_agent :: agent where
  "connected_agent = agent_run [Load, SocketOpen 0] (agent_init themed_page)"

section \<open>Lemmas about the server\<close>

subsection \<open>Removing one entry keeps the invariant\<close>

lemma update_fresh: "k \<notin> fst ` set xs \<Longrightarrow> AList.update k v xs = xs @ [(k, v)]"
  by (induction xs) auto

lemma set_delete_distinct:
  "distinct (map fst xs) \<Longrightarrow> (k, p) \<in> set xs \<Longrightarrow> set (AList.delete k xs) = set xs - {(k, p)}"
  by (induction xs) (auto simp: rev_image_eqI)

lemma distinct_map_delete: "distinct (map f xs) \<Longrightarrow> distinct (map f (AList.delete k xs))"
  by (simp add: AList.delete_eq distinct_map_filter)

lemma distinct_map_inj:
  "distinct (map f xs) \<Longrightarrow> x \<in> set xs \<Longrightarrow> y \<in> set xs \<Longrightarrow> f x = f y \<Longrightarrow> x = y"
  by (auto simp: distinct_map dest: inj_onD)

lemma finish_consistent:
  assumes c: "consistent s" and m: "(k, p) \<in> set (pendingRequests s)"
  shows "consistent (finish k p out s)"
proof -
  let ?xs = "pendingRequests s"
  from c have d1: "distinct (map fst ?xs)" and d2: "distinct (map (promise \<circ> snd) ?xs)"
    and ent: "\<And>k p. (k, p) \<in> set ?xs \<Longrightarrow> promise p < nextPromise s \<and>
        (\<exists>T. timers s (timer p) = Some T \<and> t_requestId T = k \<and> t_promise T = promise p)"
    and tim: "\<And>t T. timers s t = Some T \<Longrightarrow> t < nextTimer s \<and>
        (t_requestId T, \<lparr> promise = t_promise T, timer = t \<rparr>) \<in> set ?xs"
    and cnt: "\<And>c. length (filter (\<lambda>x. fst x = c) (settled s)) \<le>
        (if c < nextPromise s \<and> c \<notin> promise ` snd ` set ?xs then 1 else 0)"
    unfolding consistent_def by blast+
  have set': "set (AList.delete k ?xs) = set ?xs - {(k, p)}"
    by (rule set_delete_distinct [OF d1 m])
  have other_promise: "promise q \<noteq> promise p" if "(j, q) \<in> set ?xs" "(j, q) \<noteq> (k, p)" for j q
    using distinct_map_inj [OF d2 that(1) m] that(2) by auto
  have other_key: "j \<noteq> k" if "(j, q) \<in> set ?xs" "(j, q) \<noteq> (k, p)" for j q
    using distinct_map_inj [OF d1 that(1) m] that(2) by auto
  have other_timer: "timer q \<noteq> timer p" if "(j, q) \<in> set ?xs" "(j, q) \<noteq> (k, p)" for j q
    using ent [OF m] ent [OF that(1)] other_key [OF that] by auto
  have fields: "pendingRequests (finish k p out s) = AList.delete k ?xs"
    "timers (finish k p out s) = (timers s)(timer p := None)"
    "settled (finish k p out s) = settled s @ settles (promise p) out"
    "nextPromise (finish k p out s) = nextPromise s"
    "nextTimer (finish k p out s) = nextTimer s"
    by (cases out; simp add: finish_def settle_def pending_delete_def clearTimeout_def)+
  have a: "distinct (map fst (AList.delete k ?xs))" by (rule distinct_map_delete [OF d1])
  have b: "distinct (map (promise \<circ> snd) (AList.delete k ?xs))" by (rule distinct_map_delete [OF d2])
  have c': "promise q < nextPromise s \<and>
        (\<exists>T. ((timers s)(timer p := None)) (timer q) = Some T \<and> t_requestId T = j \<and> t_promise T = promise q)"
    if "(j, q) \<in> set (AList.delete k ?xs)" for j q
  proof -
    from that set' have in_xs: "(j, q) \<in> set ?xs" and ne: "(j, q) \<noteq> (k, p)" by auto
    from other_timer [OF in_xs ne] ent [OF in_xs] show ?thesis by simp
  qed
  have d: "t < nextTimer s \<and> (t_requestId T, \<lparr> promise = t_promise T, timer = t \<rparr>) \<in> set (AList.delete k ?xs)"
    if "((timers s)(timer p := None)) t = Some T" for t T
  proof -
    from that have t: "t \<noteq> timer p" and T: "timers s t = Some T" by (auto split: if_splits)
    from tim [OF T] t show ?thesis unfolding set' by auto
  qed
  have e: "length (filter (\<lambda>x. fst x = c) (settled s @ settles (promise p) out)) \<le>
        (if c < nextPromise s \<and> c \<notin> promise ` snd ` set (AList.delete k ?xs) then 1 else 0)" for c
  proof (cases "c = promise p")
    case True
    have "c \<notin> promise ` snd ` set (AList.delete k ?xs)"
      unfolding set' True using other_promise by force
    moreover have "c < nextPromise s" using ent [OF m] True by simp
    moreover have "c \<in> promise ` snd ` set ?xs"
      using m True by (metis image_eqI snd_conv)
    then have "length (filter (\<lambda>x. fst x = c) (settled s)) = 0"
      using cnt [of c] by simp
    ultimately show ?thesis using True by (cases out) simp_all
  next
    case False
    have "c \<in> promise ` snd ` set (AList.delete k ?xs) \<longleftrightarrow> c \<in> promise ` snd ` set ?xs"
      unfolding set' using False by force
    then show ?thesis using cnt [of c] False by (cases out) simp_all
  qed
  show ?thesis
    unfolding consistent_def fields using a b c' d e by blast
qed

subsection \<open>The handlers keep the invariant\<close>

lemma reject_all_Nil: "pendingRequests s = [] \<Longrightarrow> reject_all s = s"
  by (subst reject_all.simps) simp

lemma reject_all_Cons:
  "pendingRequests s = (k, p) # xs \<Longrightarrow>
   reject_all s = reject_all (pending_delete k
            (settle (promise p) (Rejected PluginDisconnected) (clearTimeout (timer p) s)))"
  by (subst reject_all.simps) simp

lemma finish_alt:
  "pending_delete k (settle (promise p) out (clearTimeout (timer p) s)) = finish k p (Some out) s"
  by (simp add: finish_def settle_def pending_delete_def clearTimeout_def)

lemma consistent_cong:
  "pendingRequests s' = pendingRequests s \<Longrightarrow> timers s' = timers s \<Longrightarrow>
   settled s' = settled s \<Longrightarrow> nextPromise s' = nextPromise s \<Longrightarrow> nextTimer s' = nextTimer s \<Longrightarrow>
   consistent s' = consistent s"
  by (simp add: consistent_def)

lemma reject_all_consistent: "consistent s \<Longrightarrow> consistent (reject_all s)"
proof (induction s rule: reject_all.induct)
  case (1 s)
  show ?case
  proof (cases "pendingRequests s")
    case Nil
    then show ?thesis using "1.prems" by (simp add: reject_all_Nil)
  next
    case (Cons x xs)
    obtain k p where x: "x = (k, p)" by (cases x)
    have "(k, p) \<in> set (pendingRequests s)" using Cons x by simp
    then have "consistent (finish k p (Some (Rejected PluginDisconnected)) s)"
      using "1.prems" by (rule finish_consistent [rotated])
    with 1 (1) [OF Cons x [symmetric]] show ?thesis
      using Cons x by (simp add: reject_all_Cons finish_alt)
  qed
qed

lemma matching_SomeD:
  "matching v s = Some (k, p) \<Longrightarrow> v = Some (JStr k) \<and> k \<noteq> [] \<and> map_of (pendingRequests s) k = Some p"
  by (cases "(v, s)" rule: matching.cases) (auto split: if_splits option.splits)

lemma on_message_None [simp]: "on_message sock None s = s"
  by (simp add: on_message_def)

lemma on_message_JNull [simp]: "on_message sock (Some JNull) s = s"
  by (simp add: on_message_def)

lemma on_message_unmatched:
  "matching (field ''requestId'' m) s = None \<Longrightarrow> on_message sock (Some m) s = s"
  by (cases m) (simp_all add: on_message_def)

lemma on_message_matched:
  "matching (field ''requestId'' m) s = Some (k, p) \<Longrightarrow>
   on_message sock (Some m) s = finish k p (reply_outcome m) s"
  by (cases m) (simp_all add: on_message_def finish_def reply_outcome_def Let_def split: option.splits)

lemma on_message_consistent: "consistent s \<Longrightarrow> consistent (on_message sock raw s)"
proof (cases raw)
  case None
  assume "consistent s" then show ?thesis using None by simp
next
  case (Some m)
  assume c: "consistent s"
  show ?thesis
  proof (cases "matching (field ''requestId'' m) s")
    case None
    then show ?thesis using c Some by (simp add: on_message_unmatched)
  next
    case (Some kp)
    obtain k p where kp: "kp = (k, p)" by (cases kp)
    from matching_SomeD [OF Some [unfolded kp]] have "(k, p) \<in> set (pendingRequests s)"
      by (auto dest: map_of_SomeD)
    from finish_consistent [OF c this] show ?thesis
      using \<open>raw = Some m\<close> Some kp by (simp add: on_message_matched)
  qed
qed

lemma fire_finish:
  "timers s t = Some T \<Longrightarrow> due T \<le> now s \<Longrightarrow>
   step (Fire t) s = finish (t_requestId T) \<lparr> promise = t_promise T, timer = t \<rparr>
                       (Some (Rejected (TimedOut (t_type T)))) s"
  by (simp add: on_timeout_def finish_def settle_def pending_delete_def clearTimeout_def)

lemma fire_consistent: "consistent s \<Longrightarrow> consistent (step (Fire t) s)"
proof (cases "timers s t")
  case None
  assume "consistent s" then show ?thesis using None by simp
next
  case (Some T)
  assume c: "consistent s"
  show ?thesis
  proof (cases "due T \<le> now s")
    case True
    from c Some have "(t_requestId T, \<lparr> promise = t_promise T, timer = t \<rparr>) \<in> set (pendingRequests s)"
      unfolding consistent_def by blast
    from finish_consistent [OF c this] show ?thesis
      by (simp only: fire_finish [OF Some True])
  next
    case False
    then show ?thesis using c Some by simp
  qed
qed

lemma close_consistent: "consistent s \<Longrightarrow> consistent (step (Close sock) s)"
proof -
  assume c: "consistent s"
  let ?s = "s\<lparr> readyState := (readyState s)(sock := CLOSED) \<rparr>"
  let ?s' = "if pluginClient ?s = Some sock then ?s\<lparr> pluginClient := None \<rparr> else ?s"
  have "consistent ?s' = consistent s" by (rule consistent_cong) simp_all
  with c have "consistent (reject_all ?s')" by (simp only: reject_all_consistent)
  then show ?thesis by (simp add: on_close_def)
qed

subsection \<open>The close loop in closed form\<close>

lemma reject_all_drained:
  "pendingRequests s = xs \<Longrightarrow> distinct (map fst xs) \<Longrightarrow> reject_all s = drained xs s"
proof (induction xs arbitrary: s)
  case Nil
  then show ?case by (simp add: reject_all_Nil drained_def)
next
  case (Cons x xs)
  obtain k p where x: "x = (k, p)" by (cases x)
  let ?s' = "pending_delete k (settle (promise p) (Rejected PluginDisconnected) (clearTimeout (timer p) s))"
  have k: "k \<notin> fst ` set xs" using Cons.prems x by auto
  have pend: "pendingRequests ?s' = xs"
    using Cons.prems x k by (simp add: pending_delete_def settle_def clearTimeout_def delete_id)
  have "reject_all s = reject_all ?s'" using Cons.prems x by (simp add: reject_all_Cons)
  also have "\<dots> = drained xs ?s'" using Cons.IH [OF pend] Cons.prems by simp
  also have "\<dots> = drained (x # xs) s"
    using Cons.prems x
    by (auto simp: drained_def pending_delete_def settle_def clearTimeout_def fun_eq_iff)
  finally show ?case .
qed

subsection \<open>Registering a call\<close>

lemma sendToPlugin_closed:
  "pluginClient s = None \<or> (\<exists>sock. pluginClient s = Some sock \<and> readyState s sock \<noteq> OPEN) \<Longrightarrow>
   sendToPlugin uuid ty dat s =
     (nextPromise s, s\<lparr> nextPromise := Suc (nextPromise s),
                        settled := settled s @ [(nextPromise s, Rejected NoPluginConnected)] \<rparr>)"
  by (auto simp: sendToPlugin_def settle_def Let_def)

lemma sendToPlugin_open:
  "pluginClient s = Some sock \<Longrightarrow> readyState s sock = OPEN \<Longrightarrow>
   sendToPlugin uuid ty dat s =
     (nextPromise s,
      s\<lparr> nextPromise := Suc (nextPromise s), nextTimer := Suc (nextTimer s),
         timers := (timers s)(nextTimer s \<mapsto>
            \<lparr> due = now s + REQUEST_TIMEOUT_MS, t_requestId = uuid, t_type = ty,
              t_promise = nextPromise s \<rparr>),
         pendingRequests := AList.update uuid \<lparr> promise = nextPromise s, timer = nextTimer s \<rparr>
                              (pendingRequests s),
         sent := sent s @ [(sock, \<lparr> requestId = Some uuid, type = ty, data = dat \<rparr>)] \<rparr>)"
  by (simp add: sendToPlugin_def Let_def)

lemma sendToPlugin_cases:
  obtains (closed) "pluginClient s = None \<or> (\<exists>sock. pluginClient s = Some sock \<and> readyState s sock \<noteq> OPEN)"
  | (opened) sock where "pluginClient s = Some sock" "readyState s sock = OPEN"
  by (cases "pluginClient s") auto

lemma rejected_consistent:
  assumes c: "consistent s"
  shows "consistent (s\<lparr> nextPromise := Suc (nextPromise s),
                        settled := settled s @ [(nextPromise s, out)] \<rparr>)"
proof -
  have lt: "promise p < nextPromise s" if "(k, p) \<in> set (pendingRequests s)" for k p
    using c that unfolding consistent_def by blast
  then have fresh: "nextPromise s \<notin> promise ` snd ` set (pendingRequests s)" by force
  have cnt: "length (filter (\<lambda>x. fst x = d) (settled s)) \<le>
        (if d < nextPromise s \<and> d \<notin> promise ` snd ` set (pendingRequests s) then 1 else 0)" for d
    using c unfolding consistent_def by blast
  have "length (filter (\<lambda>x. fst x = d) (settled s @ [(nextPromise s, out)])) \<le>
        (if d < Suc (nextPromise s) \<and> d \<notin> promise ` snd ` set (pendingRequests s) then 1 else 0)" for d
  proof (cases "d = nextPromise s")
    case True
    then have "length (filter (\<lambda>x. fst x = d) (settled s)) = 0" using cnt [of d] by simp
    then show ?thesis using True fresh by simp
  next
    case False
    then have "(d < Suc (nextPromise s)) = (d < nextPromise s)" by auto
    then show ?thesis using cnt [of d] False by simp
  qed
  moreover have "promise p < Suc (nextPromise s)" if "(k, p) \<in> set (pendingRequests s)" for k p
    using lt [OF that] by simp
  ultimately show ?thesis using c unfolding consistent_def by simp
qed

lemma registered_consistent:
  assumes c: "consistent s" and fresh: "uuid \<notin> fst ` set (pendingRequests s)"
  shows "consistent (s\<lparr> nextPromise := Suc (nextPromise s), nextTimer := Suc (nextTimer s),
         timers := (timers s)(nextTimer s \<mapsto>
            \<lparr> due = d, t_requestId = uuid, t_type = ty, t_promise = nextPromise s \<rparr>),
         pendingRequests := AList.update uuid \<lparr> promise = nextPromise s, timer = nextTimer s \<rparr>
                              (pendingRequests s),
         sent := out \<rparr>)" (is "consistent ?s'")
proof -
  let ?xs = "pendingRequests s"
  let ?new = "\<lparr> promise = nextPromise s, timer = nextTimer s \<rparr>"
  let ?T = "\<lparr> due = d, t_requestId = uuid, t_type = ty, t_promise = nextPromise s \<rparr>"
  from c have d1: "distinct (map fst ?xs)" and d2: "distinct (map (promise \<circ> snd) ?xs)"
    and ent: "\<And>k p. (k, p) \<in> set ?xs \<Longrightarrow> promise p < nextPromise s \<and>
        (\<exists>T. timers s (timer p) = Some T \<and> t_requestId T = k \<and> t_promise T = promise p)"
    and tim: "\<And>t T. timers s t = Some T \<Longrightarrow> t < nextTimer s \<and>
        (t_requestId T, \<lparr> promise = t_promise T, timer = t \<rparr>) \<in> set ?xs"
    and cnt: "\<And>c. length (filter (\<lambda>x. fst x = c) (settled s)) \<le>
        (if c < nextPromise s \<and> c \<notin> promise ` snd ` set ?xs then 1 else 0)"
    unfolding consistent_def by blast+
  have upd: "AList.update uuid ?new ?xs = ?xs @ [(uuid, ?new)]"
    by (rule update_fresh [OF fresh])
  have nop: "nextPromise s \<notin> promise ` snd ` set ?xs" using ent by force
  have a: "distinct (map fst (?xs @ [(uuid, ?new)]))" using d1 fresh by simp
  have b: "distinct (map (promise \<circ> snd) (?xs @ [(uuid, ?new)]))" using d2 nop by (simp add: image_image)
  have c': "promise p < Suc (nextPromise s) \<and>
        (\<exists>T. ((timers s)(nextTimer s \<mapsto> ?T)) (timer p) = Some T \<and> t_requestId T = k \<and> t_promise T = promise p)"
    if "(k, p) \<in> set (?xs @ [(uuid, ?new)])" for k p
  proof (cases "(k, p) = (uuid, ?new)")
    case True
    then show ?thesis by auto
  next
    case False
    with that have in_xs: "(k, p) \<in> set ?xs" by auto
    from ent [OF in_xs] obtain T where T: "timers s (timer p) = Some T" "t_requestId T = k"
      "t_promise T = promise p" and lt: "promise p < nextPromise s" by blast
    from tim [OF T(1)] have "timer p \<noteq> nextTimer s" by auto
    with T lt show ?thesis by auto
  qed
  have d': "t < Suc (nextTimer s) \<and>
        (t_requestId T, \<lparr> promise = t_promise T, timer = t \<rparr>) \<in> set (?xs @ [(uuid, ?new)])"
    if "((timers s)(nextTimer s \<mapsto> ?T)) t = Some T" for t T
  proof (cases "t = nextTimer s")
    case True
    with that show ?thesis by auto
  next
    case False
    with that have "timers s t = Some T" by simp
    from tim [OF this] show ?thesis by auto
  qed
  have e: "length (filter (\<lambda>x. fst x = c) (settled s)) \<le>
        (if c < Suc (nextPromise s) \<and> c \<notin> promise ` snd ` set (?xs @ [(uuid, ?new)]) then 1 else 0)" for c
    using cnt [of c] by (auto simp: less_Suc_eq split: if_splits)
  show ?thesis
    unfolding consistent_def using a b c' d' e by (simp add: upd del: set_append map_append)
qed

lemma sendToPlugin_consistent:
  assumes c: "consistent s" and fresh: "uuid \<notin> fst ` set (pendingRequests s)"
  shows "consistent (snd (sendToPlugin uuid ty dat s))"
proof (cases s rule: sendToPlugin_cases)
  case closed
  then show ?thesis using rejected_consistent [OF c] by (simp add: sendToPlugin_closed)
next
  case (opened sock)
  then show ?thesis using registered_consistent [OF c fresh] by (simp add: sendToPlugin_open)
qed

lemma step_consistent:
  assumes c: "consistent s" and fresh: "set (invoke_ids [e]) \<inter> fst ` set (pendingRequests s) = {}"
  shows "consistent (step e s)"
proof (cases e)
  case (Connection sock)
  have "consistent (step (Connection sock) s) = consistent s"
    by (rule consistent_cong) (simp_all add: on_connection_def)
  then show ?thesis using c Connection by simp
next
  case (Message sock raw)
  then show ?thesis using on_message_consistent [OF c] by simp
next
  case (Close sock)
  then show ?thesis using close_consistent [OF c] by simp
next
  case (SocketError sock)
  then show ?thesis using c by simp
next
  case (Closing sock)
  have "consistent (step (Closing sock) s) = consistent s"
    by (rule consistent_cong) simp_all
  then show ?thesis using c Closing by simp
next
  case (Invoke uuid ty dat)
  with fresh have "uuid \<notin> fst ` set (pendingRequests s)" by simp
  from sendToPlugin_consistent [OF c this] show ?thesis using Invoke by simp
next
  case (Fire t)
  then show ?thesis using fire_consistent [OF c] by simp
next
  case (Advance d)
  have "consistent (step (Advance d) s) = consistent s"
    by (rule consistent_cong) simp_all
  then show ?thesis using c Advance by simp
qed

subsection \<open>Keys of the map along an execution\<close>

lemma reject_all_pending: "pendingRequests (reject_all s) = []"
proof (induction s rule: reject_all.induct)
  case (1 s)
  show ?case
  proof (cases "pendingRequests s")
    case Nil
    then show ?thesis by (simp add: reject_all_Nil)
  next
    case (Cons x xs)
    obtain k p where x: "x = (k, p)" by (cases x)
    from 1 [OF Cons x [symmetric]] show ?thesis
      using Cons x by (simp add: reject_all_Cons)
  qed
qed

lemma keys_finish: "fst ` set (pendingRequests (finish k p out s)) \<subseteq> fst ` set (pendingRequests s)"
  using dom_delete_subset [of k "pendingRequests s"]
  by (cases out) (simp_all add: finish_def settle_def pending_delete_def clearTimeout_def)

lemma keys_step:
  "fst ` set (pendingRequests (step e s)) \<subseteq> fst ` set (pendingRequests s) \<union> set (invoke_ids [e])"
proof (cases e)
  case (Message sock raw)
  show ?thesis
  proof (cases raw)
    case None
    then show ?thesis using Message by simp
  next
    case (Some m)
    show ?thesis
    proof (cases "matching (field ''requestId'' m) s")
      case None
      then show ?thesis using Message Some by (simp add: on_message_unmatched)
    next
      case (Some kp)
      obtain k p where "kp = (k, p)" by (cases kp)
      then show ?thesis using Message Some \<open>raw = Some m\<close> keys_finish [of k p "reply_outcome m" s]
        by (simp add: on_message_matched)
    qed
  qed
next
  case (Close sock)
  then show ?thesis by (simp add: on_close_def reject_all_pending)
next
  case (Invoke uuid ty dat)
  show ?thesis
  proof (cases s rule: sendToPlugin_cases)
    case closed
    then show ?thesis using Invoke by (auto simp: sendToPlugin_closed)
  next
    case (opened sock)
    then show ?thesis using Invoke by (auto simp: sendToPlugin_open dom_update)
  qed
next
  case (Fire t)
  show ?thesis
  proof (cases "timers s t")
    case None
    then show ?thesis using Fire by simp
  next
    case (Some T)
    then show ?thesis using Fire keys_finish [of "t_requestId T" _ _ s]
      by (cases "due T \<le> now s") (simp_all only: fire_finish, auto)
  qed
qed (auto simp: on_connection_def)

lemma invoke_ids_append: "invoke_ids (xs @ ys) = invoke_ids xs @ invoke_ids ys"
  by (induction xs rule: invoke_ids.induct) auto

lemma run_consistent:
  "consistent s \<Longrightarrow> distinct (invoke_ids es) \<Longrightarrow>
   set (invoke_ids es) \<inter> fst ` set (pendingRequests s) = {} \<Longrightarrow> consistent (run es s)"
proof (induction es arbitrary: s)
  case Nil
  then show ?case by simp
next
  case (Cons e es)
  have ids: "invoke_ids (e # es) = invoke_ids [e] @ invoke_ids es"
    using invoke_ids_append [of "[e]" es] by simp
  have 1: "consistent (step e s)"
    using Cons.prems ids by (intro step_consistent) auto
  have 2: "distinct (invoke_ids es)" using Cons.prems ids by simp
  have 3: "set (invoke_ids es) \<inter> fst ` set (pendingRequests (step e s)) = {}"
    using keys_step [of e s] Cons.prems ids by auto
  show ?case using Cons.IH [OF 1 2 3] by simp
qed

lemma init_consistent: "consistent init"
  by (simp add: consistent_def init_def)

lemma reachable_consistent: "distinct (invoke_ids es) \<Longrightarrow> consistent (run es init)"
  by (rule run_consistent [OF init_consistent]) (simp_all add: init_def)

lemma on_close_drained:
  "distinct (map fst (pendingRequests s)) \<Longrightarrow>
   on_close sock s =
     drained (pendingRequests s) (if pluginClient s = Some sock then s\<lparr> pluginClient := None \<rparr> else s)"
  by (simp add: on_close_def reject_all_drained)

lemma close_drained:
  "distinct (map fst (pendingRequests s)) \<Longrightarrow>
   step (Close sock) s =
     drained (pendingRequests s)
       (if pluginClient s = Some sock
        then s\<lparr> readyState := (readyState s)(sock := CLOSED), pluginClient := None \<rparr>
        else s\<lparr> readyState := (readyState s)(sock := CLOSED) \<rparr>)"
  by (simp add: on_close_drained)

lemmas eval_defs = init_def on_connection_def sendToPlugin_def on_message_def on_timeout_def
  settle_def clearTimeout_def pending_delete_def REQUEST_TIMEOUT_MS_def Let_def drained_def
  settlements_def

subsection \<open>Settlements\<close>

lemma consistentD:
  assumes "consistent s"
  shows "distinct (map fst (pendingRequests s))"
    and "distinct (map (promise \<circ> snd) (pendingRequests s))"
    and "\<And>k p. (k, p) \<in> set (pendingRequests s) \<Longrightarrow> promise p < nextPromise s"
    and "\<And>k p. (k, p) \<in> set (pendingRequests s) \<Longrightarrow>
           \<exists>T. timers s (timer p) = Some T \<and> t_requestId T = k \<and> t_promise T = promise p"
    and "\<And>t T. timers s t = Some T \<Longrightarrow>
           (t_requestId T, \<lparr> promise = t_promise T, timer = t \<rparr>) \<in> set (pendingRequests s)"
    and "\<And>t T. timers s t = Some T \<Longrightarrow> t < nextTimer s"
    and "\<And>c. length (filter (\<lambda>x. fst x = c) (settled s)) \<le>
           (if c < nextPromise s \<and> c \<notin> promise ` snd ` set (pendingRequests s) then 1 else 0)"
  using assms unfolding consistent_def by blast+

lemma pending_unsettled:
  assumes "consistent s" and "(k, p) \<in> set (pendingRequests s)"
  shows "settlements (promise p) s = []"
proof -
  have "promise p \<in> promise ` snd ` set (pendingRequests s)"
    using assms(2) by (metis image_eqI snd_conv)
  then have "length (filter (\<lambda>x. fst x = promise p) (settled s)) = 0"
    using consistentD(7) [OF assms(1), of "promise p"] by simp
  then show ?thesis by (simp add: settlements_def)
qed

lemma settlements_append:
  "settled s' = settled s @ xs \<Longrightarrow>
   settlements c s' = settlements c s @ map snd (filter (\<lambda>x. fst x = c) xs)"
  by (simp add: settlements_def)

lemma same_promise_same_entry:
  assumes "consistent s" and "(k, p) \<in> set (pendingRequests s)" and "(j, q) \<in> set (pendingRequests s)"
    and "promise q = promise p"
  shows "j = k \<and> q = p"
  using distinct_map_inj [OF consistentD(2) [OF assms(1)] assms(3) assms(2)] assms(4) by simp

lemma filter_distinct_map:
  "distinct (map g xs) \<Longrightarrow> x \<in> set xs \<Longrightarrow> filter (\<lambda>y. g y = g x) xs = [x]"
proof (induction xs)
  case Nil
  then show ?case by simp
next
  case (Cons a xs)
  show ?case
  proof (cases "a = x")
    case True
    have "g x \<notin> g ` set xs" using Cons.prems(1) True by simp
    then have "filter (\<lambda>y. g y = g x) xs = []"
      unfolding filter_empty_conv by (metis imageI)
    then show ?thesis using True by simp
  next
    case False
    then have "x \<in> set xs" using Cons.prems(2) by simp
    moreover have "g a \<noteq> g x" using Cons.prems(1) \<open>x \<in> set xs\<close> by auto
    ultimately show ?thesis using Cons by simp
  qed
qed

lemma finish_fields:
  "pendingRequests (finish k p out s) = AList.delete k (pendingRequests s)"
  "timers (finish k p out s) = (timers s)(timer p := None)"
  "settled (finish k p out s) = settled s @ settles (promise p) out"
  "nextPromise (finish k p out s) = nextPromise s"
  "nextTimer (finish k p out s) = nextTimer s"
  "sent (finish k p out s) = sent s"
  "now (finish k p out s) = now s"
  "pluginClient (finish k p out s) = pluginClient s"
  "readyState (finish k p out s) = readyState s"
  by (cases out; simp add: finish_def settle_def pending_delete_def clearTimeout_def)+

lemma sendToPlugin_settled:
  "settled (snd (sendToPlugin uuid ty dat s)) = settled s \<or>
   (\<exists>out. settled (snd (sendToPlugin uuid ty dat s)) = settled s @ [(nextPromise s, out)])"
  by (cases s rule: sendToPlugin_cases) (simp_all add: sendToPlugin_closed sendToPlugin_open)

lemma not_carried_unsettled:
  assumes c: "consistent s" and m: "(k, p) \<in> set (pendingRequests s)"
    and nc: "\<not> carries k (timer p) e"
  shows "settlements (promise p) (step e s) = []"
proof -
  have un: "settlements (promise p) s = []" by (rule pending_unsettled [OF c m])
  have same: "settlements (promise p) s' = []" if "settled s' = settled s" for s'
    using un that by (simp add: settlements_def)
  have other: "settlements (promise p) s' = []"
    if "settled s' = settled s @ settles d out" "d \<noteq> promise p" for s' d out
    using un that by (cases out) (simp_all add: settlements_def)
  show ?thesis
  proof (cases e)
    case (Connection sock)
    then show ?thesis by (intro same) (simp add: on_connection_def)
  next
    case (Message sock raw)
    show ?thesis
    proof (cases raw)
      case None
      then show ?thesis using Message un by simp
    next
      case (Some msg)
      show ?thesis
      proof (cases "matching (field ''requestId'' msg) s")
        case None
        then show ?thesis using Message Some un by (simp add: on_message_unmatched)
      next
        case (Some jq)
        obtain j q where jq: "jq = (j, q)" by (cases jq)
        from matching_SomeD [OF Some [unfolded jq]]
        have f: "field ''requestId'' msg = Some (JStr j)" and mq: "map_of (pendingRequests s) j = Some q"
          by auto
        from nc Message \<open>raw = Some msg\<close> f have "j \<noteq> k" by auto
        moreover have "(j, q) \<in> set (pendingRequests s)" using mq by (rule map_of_SomeD)
        ultimately have "promise q \<noteq> promise p"
          using same_promise_same_entry [OF c m] by blast
        moreover have "settled (step e s) = settled s @ settles (promise q) (reply_outcome msg)"
          using Message \<open>raw = Some msg\<close> Some jq
          by (simp add: on_message_matched finish_fields)
        ultimately show ?thesis by (intro other)
      qed
    qed
  next
    case (Close sock)
    then show ?thesis using nc by simp
  next
    case (SocketError sock)
    then show ?thesis using un by simp
  next
    case (Closing sock)
    then show ?thesis by (intro same) simp
  next
    case (Invoke uuid ty dat)
    have "nextPromise s \<noteq> promise p" using consistentD(3) [OF c m] by simp
    then show ?thesis
      using sendToPlugin_settled [of uuid ty dat s] Invoke same other [where out = "Some r" for r]
      by fastforce
  next
    case (Fire t)
    show ?thesis
    proof (cases "timers s t")
      case None
      then show ?thesis using Fire un by simp
    next
      case (Some T)
      show ?thesis
      proof (cases "due T \<le> now s")
        case True
        have ent: "(t_requestId T, \<lparr> promise = t_promise T, timer = t \<rparr>) \<in> set (pendingRequests s)"
          by (rule consistentD(5) [OF c Some])
        have "t_promise T \<noteq> promise p"
        proof
          assume "t_promise T = promise p"
          with same_promise_same_entry [OF c m ent]
          have "p = \<lparr> promise = t_promise T, timer = t \<rparr>" by simp
          then have "timer p = t" by (metis PendingRequest.select_convs(2))
          with nc Fire show False by simp
        qed
        moreover have "settled (step e s) =
            settled s @ settles (t_promise T) (Some (Rejected (TimedOut (t_type T))))"
          unfolding Fire fire_finish [OF Some True] by (simp add: finish_fields)
        ultimately show ?thesis by (intro other)
      next
        case False
        then show ?thesis using Fire Some un by simp
      qed
    qed
  next
    case (Advance d)
    then show ?thesis by (intro same) simp
  qed
qed

lemma message_own_id:
  assumes "map_of (pendingRequests s) k = Some p" and "k \<noteq> []"
    and "field ''requestId'' msg = Some (JStr k)"
  shows "step (Message sock (Some msg)) s = finish k p (reply_outcome msg) s"
  using assms by (simp add: on_message_matched)

lemma message_unknown_id:
  assumes "k \<notin> fst ` set (pendingRequests s)" and "field ''requestId'' msg = Some (JStr k)"
  shows "step (Message sock (Some msg)) s = s"
proof -
  have "map_of (pendingRequests s) k = None" using assms(1) by (simp add: map_of_eq_None_iff)
  then have "matching (field ''requestId'' msg) s = None" using assms(2) by simp
  then show ?thesis by (simp add: on_message_unmatched)
qed

subsection \<open>An entry that is still there was never touched\<close>

lemma run_append: "run (xs @ ys) s = run ys (run xs s)"
  by (induction xs arbitrary: s) simp_all

lemma step_keeps_entry:
  assumes c: "consistent s" and k: "k \<notin> set (invoke_ids [e])"
    and after: "map_of (pendingRequests (step e s)) k = Some p"
  shows "map_of (pendingRequests s) k = Some p \<and> timers (step e s) (timer p) = timers s (timer p)"
proof -
  have removal: "map_of (pendingRequests s) k = Some p \<and>
        timers (finish j q out s) (timer p) = timers s (timer p)"
    if jq: "(j, q) \<in> set (pendingRequests s)"
      and a: "map_of (pendingRequests (finish j q out s)) k = Some p" for j q out
  proof -
    from a have a': "map_of (AList.delete j (pendingRequests s)) k = Some p"
      by (simp add: finish_fields)
    then have "k \<noteq> j" by (auto simp: delete_conv')
    with a' have b: "map_of (pendingRequests s) k = Some p" by simp
    then have kp: "(k, p) \<in> set (pendingRequests s)" by (rule map_of_SomeD)
    obtain T where T: "timers s (timer p) = Some T" "t_requestId T = k"
      using consistentD(4) [OF c kp] by blast
    obtain U where U: "timers s (timer q) = Some U" "t_requestId U = j"
      using consistentD(4) [OF c jq] by blast
    from T U \<open>k \<noteq> j\<close> have "timer p \<noteq> timer q" by auto
    with b show ?thesis by (simp add: finish_fields)
  qed
  show ?thesis
  proof (cases e)
    case (Connection sock)
    then show ?thesis using after by (simp add: on_connection_def)
  next
    case (Message sock raw)
    show ?thesis
    proof (cases raw)
      case None
      then show ?thesis using Message after by simp
    next
      case (Some msg)
      show ?thesis
      proof (cases "matching (field ''requestId'' msg) s")
        case None
        then show ?thesis using Message Some after by (simp add: on_message_unmatched)
      next
        case (Some jq)
        obtain j q where jq: "jq = (j, q)" by (cases jq)
        have st: "step e s = finish j q (reply_outcome msg) s"
          using Message \<open>raw = Some msg\<close> Some jq by (simp add: on_message_matched)
        have "(j, q) \<in> set (pendingRequests s)"
          using matching_SomeD [OF Some [unfolded jq]] by (auto dest: map_of_SomeD)
        from removal [OF this after [unfolded st]] show ?thesis unfolding st .
      qed
    qed
  next
    case (Close sock)
    then show ?thesis using after by (simp add: on_close_def reject_all_pending)
  next
    case (SocketError sock)
    then show ?thesis using after by simp
  next
    case (Closing sock)
    then show ?thesis using after by simp
  next
    case (Invoke uuid ty dat)
    with k have ne: "k \<noteq> uuid" by simp
    show ?thesis
    proof (cases s rule: sendToPlugin_cases)
      case closed
      then show ?thesis using Invoke after by (simp add: sendToPlugin_closed)
    next
      case (opened sock)
      from after Invoke ne have b: "map_of (pendingRequests s) k = Some p"
        by (simp add: sendToPlugin_open [OF opened] update_conv')
      then have kp: "(k, p) \<in> set (pendingRequests s)" by (rule map_of_SomeD)
      obtain T where T: "timers s (timer p) = Some T"
        using consistentD(4) [OF c kp] by blast
      from consistentD(6) [OF c T] have "timer p \<noteq> nextTimer s" by simp
      with b Invoke show ?thesis by (simp add: sendToPlugin_open [OF opened])
    qed
  next
    case (Fire t)
    show ?thesis
    proof (cases "timers s t")
      case None
      then show ?thesis using Fire after by simp
    next
      case (Some T)
      show ?thesis
      proof (cases "due T \<le> now s")
        case True
        have st: "step e s = finish (t_requestId T) \<lparr> promise = t_promise T, timer = t \<rparr>
                       (Some (Rejected (TimedOut (t_type T)))) s"
          unfolding Fire by (rule fire_finish [OF Some True])
        from removal [OF consistentD(5) [OF c Some] after [unfolded st]] show ?thesis unfolding st .
      next
        case False
        then show ?thesis using Fire Some after by simp
      qed
    qed
  next
    case (Advance d)
    then show ?thesis using after by simp
  qed
qed

lemma run_keeps_entry:
  "consistent s \<Longrightarrow> distinct (invoke_ids es) \<Longrightarrow>
   set (invoke_ids es) \<inter> fst ` set (pendingRequests s) = {} \<Longrightarrow> k \<notin> set (invoke_ids es) \<Longrightarrow>
   map_of (pendingRequests (run es s)) k = Some p \<Longrightarrow>
   map_of (pendingRequests s) k = Some p \<and> timers (run es s) (timer p) = timers s (timer p)"
proof (induction es arbitrary: s)
  case Nil
  then show ?case by simp
next
  case (Cons e es)
  have ids: "invoke_ids (e # es) = invoke_ids [e] @ invoke_ids es"
    using invoke_ids_append [of "[e]" es] by simp
  have 1: "consistent (step e s)"
    using Cons.prems ids by (intro step_consistent) auto
  have 2: "distinct (invoke_ids es)" using Cons.prems ids by simp
  have 3: "set (invoke_ids es) \<inter> fst ` set (pendingRequests (step e s)) = {}"
    using keys_step [of e s] Cons.prems ids by auto
  have 4: "k \<notin> set (invoke_ids es)" and 5: "k \<notin> set (invoke_ids [e])"
    using Cons.prems(4) ids by auto
  have 6: "map_of (pendingRequests (run es (step e s))) k = Some p" using Cons.prems(5) by simp
  from Cons.IH [OF 1 2 3 4 6]
  have a: "map_of (pendingRequests (step e s)) k = Some p"
    and b: "timers (run es (step e s)) (timer p) = timers (step e s) (timer p)" by auto
  from step_keeps_entry [OF Cons.prems(1) 5 a] b show ?case by simp
qed

lemma keys_run:
  "fst ` set (pendingRequests (run es s)) \<subseteq> fst ` set (pendingRequests s) \<union> set (invoke_ids es)"
proof (induction es arbitrary: s)
  case Nil
  then show ?case by simp
next
  case (Cons e es)
  have ids: "invoke_ids (e # es) = invoke_ids [e] @ invoke_ids es"
    using invoke_ids_append [of "[e]" es] by simp
  show ?case using Cons.IH [of "step e s"] keys_step [of e s] ids by auto
qed

lemma drained_settlements:
  assumes c: "consistent s" and m: "(k, p) \<in> set (pendingRequests s)"
    and s': "settled s' = settled s @ map (\<lambda>(k, p). (promise p, Rejected PluginDisconnected)) (pendingRequests s)"
  shows "settlements (promise p) s' = [Rejected PluginDisconnected]"
proof -
  let ?f = "\<lambda>(k, p). (promise p, Rejected PluginDisconnected)"
  have comp: "(\<lambda>x. fst x = promise p) \<circ> ?f = (\<lambda>y. (promise \<circ> snd) y = (promise \<circ> snd) (k, p))"
    by (auto simp: fun_eq_iff)
  have "filter (\<lambda>x. fst x = promise p) (map ?f (pendingRequests s)) =
        map ?f (filter (\<lambda>y. (promise \<circ> snd) y = (promise \<circ> snd) (k, p)) (pendingRequests s))"
    by (simp only: filter_map comp)
  also have "\<dots> = map ?f [(k, p)]"
    by (simp only: filter_distinct_map [OF consistentD(2) [OF c] m])
  finally have "filter (\<lambda>x. fst x = promise p) (map ?f (pendingRequests s)) =
      [(promise p, Rejected PluginDisconnected)]" by simp
  then show ?thesis
    using settlements_append [OF s', of "promise p"] pending_unsettled [OF c m] by simp
qed

subsection \<open>An entry no event carries stays\<close>

lemma step_not_carried_keeps:
  assumes c: "consistent s" and kp: "map_of (pendingRequests s) k = Some p"
    and nc: "\<not> carries k (timer p) e" and k: "k \<notin> set (invoke_ids [e])"
  shows "map_of (pendingRequests (step e s)) k = Some p"
proof (cases e)
  case (Connection sock)
  then show ?thesis using kp by (simp add: on_connection_def)
next
  case (Message sock raw)
  show ?thesis
  proof (cases raw)
    case None
    then show ?thesis using Message kp by simp
  next
    case (Some msg)
    show ?thesis
    proof (cases "matching (field ''requestId'' msg) s")
      case None
      then show ?thesis using Message Some kp by (simp add: on_message_unmatched)
    next
      case (Some jq)
      obtain j q where jq: "jq = (j, q)" by (cases jq)
      from matching_SomeD [OF Some [unfolded jq]]
      have "field ''requestId'' msg = Some (JStr j)" by simp
      with nc Message \<open>raw = Some msg\<close> have "k \<noteq> j" by auto
      then show ?thesis
        using Message \<open>raw = Some msg\<close> Some jq kp
        by (simp add: on_message_matched finish_fields)
    qed
  qed
next
  case (Close sock)
  then show ?thesis using nc by simp
next
  case (SocketError sock)
  then show ?thesis using kp by simp
next
  case (Closing sock)
  then show ?thesis using kp by simp
next
  case (Invoke uuid ty dat)
  with k have ne: "k \<noteq> uuid" by simp
  show ?thesis
  proof (cases s rule: sendToPlugin_cases)
    case closed
    then show ?thesis using Invoke kp by (simp add: sendToPlugin_closed)
  next
    case (opened sock)
    then show ?thesis using Invoke kp ne by (simp add: sendToPlugin_open update_conv')
  qed
next
  case (Fire t)
  show ?thesis
  proof (cases "timers s t")
    case None
    then show ?thesis using Fire kp by simp
  next
    case (Some T)
    show ?thesis
    proof (cases "due T \<le> now s")
      case True
      have ent: "(t_requestId T, \<lparr> promise = t_promise T, timer = t \<rparr>) \<in> set (pendingRequests s)"
        by (rule consistentD(5) [OF c Some])
      have "k \<noteq> t_requestId T"
      proof
        assume "k = t_requestId T"
        with ent consistentD(1) [OF c]
        have "map_of (pendingRequests s) k = Some \<lparr> promise = t_promise T, timer = t \<rparr>" by simp
        with kp have "p = \<lparr> promise = t_promise T, timer = t \<rparr>" by simp
        then have "timer p = t" by (metis PendingRequest.select_convs(2))
        with nc Fire show False by simp
      qed
      then show ?thesis
        unfolding Fire fire_finish [OF Some True] using kp by (simp add: finish_fields)
    next
      case False
      then show ?thesis using Fire Some kp by simp
    qed
  qed
next
  case (Advance d)
  then show ?thesis using kp by simp
qed

lemma run_not_carried_keeps:
  "consistent s \<Longrightarrow> distinct (invoke_ids es) \<Longrightarrow>
   set (invoke_ids es) \<inter> fst ` set (pendingRequests s) = {} \<Longrightarrow> k \<notin> set (invoke_ids es) \<Longrightarrow>
   map_of (pendingRequests s) k = Some p \<Longrightarrow> \<forall>e \<in> set es. \<not> carries k (timer p) e \<Longrightarrow>
   map_of (pendingRequests (run es s)) k = Some p"
proof (induction es arbitrary: s)
  case Nil
  then show ?case by simp
next
  case (Cons e es)
  have ids: "invoke_ids (e # es) = invoke_ids [e] @ invoke_ids es"
    using invoke_ids_append [of "[e]" es] by simp
  have 1: "consistent (step e s)"
    using Cons.prems(1,3) ids by (intro step_consistent) auto
  have 2: "distinct (invoke_ids es)" using Cons.prems(2) ids by simp
  have 3: "set (invoke_ids es) \<inter> fst ` set (pendingRequests (step e s)) = {}"
    using keys_step [of e s] Cons.prems(2,3) ids by auto
  have 4: "k \<notin> set (invoke_ids es)" and 5: "k \<notin> set (invoke_ids [e])"
    using Cons.prems(4) ids by auto
  have 6: "map_of (pendingRequests (step e s)) k = Some p"
    using step_not_carried_keeps [OF Cons.prems(1) Cons.prems(5) _ 5] Cons.prems(6) by simp
  have 7: "\<forall>e \<in> set es. \<not> carries k (timer p) e" using Cons.prems(6) by simp
  show ?case using Cons.IH [OF 1 2 3 4 6 7] by simp
qed

subsection \<open>A promise nothing holds is never settled\<close>

lemma orphaned_finish:
  assumes o: "orphaned c s" and m: "(k, p) \<in> set (pendingRequests s)"
  shows "orphaned c (finish k p out s)"
proof -
  from o m have ne: "promise p \<noteq> c" by (auto simp: orphaned_def list_all_iff)
  have "list_all (\<lambda>(k, p). promise p \<noteq> c) (AList.delete k (pendingRequests s))"
    using o by (auto simp: orphaned_def list_all_iff AList.delete_eq)
  moreover have "settlements c (finish k p out s) = []"
    using o ne by (cases out) (simp_all add: orphaned_def settlements_def finish_fields)
  ultimately show ?thesis using o by (simp add: orphaned_def finish_fields)
qed

lemma orphaned_reject_all: "orphaned c s \<Longrightarrow> orphaned c (reject_all s)"
proof (induction s rule: reject_all.induct)
  case (1 s)
  show ?case
  proof (cases "pendingRequests s")
    case Nil
    then show ?thesis using "1.prems" by (simp add: reject_all_Nil)
  next
    case (Cons x xs)
    obtain k p where x: "x = (k, p)" by (cases x)
    have "(k, p) \<in> set (pendingRequests s)" using Cons x by simp
    from orphaned_finish [OF "1.prems" this]
    have "orphaned c (finish k p (Some (Rejected PluginDisconnected)) s)" .
    with 1 (1) [OF Cons x [symmetric]] show ?thesis
      using Cons x by (simp add: reject_all_Cons finish_alt)
  qed
qed

lemma list_all_update:
  "list_all P xs \<Longrightarrow> P (k, v) \<Longrightarrow> list_all P (AList.update k v xs)"
  by (induction xs) auto

lemma orphaned_cong:
  "pendingRequests s' = pendingRequests s \<Longrightarrow> timers s' = timers s \<Longrightarrow>
   settled s' = settled s \<Longrightarrow> nextPromise s' = nextPromise s \<Longrightarrow>
   orphaned c s' = orphaned c s"
  by (simp add: orphaned_def settlements_def)

lemma orphaned_step: "orphaned c s \<Longrightarrow> orphaned c (step e s)"
proof (cases e)
  case (Connection sock)
  have "orphaned c (step (Connection sock) s) = orphaned c s"
    by (rule orphaned_cong) (simp_all add: on_connection_def)
  moreover assume "orphaned c s"
  ultimately show ?thesis using Connection by simp
next
  case (Message sock raw)
  assume o: "orphaned c s"
  show ?thesis
  proof (cases raw)
    case None
    then show ?thesis using Message o by simp
  next
    case (Some msg)
    show ?thesis
    proof (cases "matching (field ''requestId'' msg) s")
      case None
      then show ?thesis using Message Some o by (simp add: on_message_unmatched)
    next
      case (Some jq)
      obtain j q where jq: "jq = (j, q)" by (cases jq)
      have "(j, q) \<in> set (pendingRequests s)"
        using matching_SomeD [OF Some [unfolded jq]] by (auto dest: map_of_SomeD)
      from orphaned_finish [OF o this] show ?thesis
        using Message \<open>raw = Some msg\<close> Some jq by (simp add: on_message_matched)
    qed
  qed
next
  case (Close sock)
  assume o: "orphaned c s"
  let ?s = "s\<lparr> readyState := (readyState s)(sock := CLOSED) \<rparr>"
  let ?s' = "if pluginClient ?s = Some sock then ?s\<lparr> pluginClient := None \<rparr> else ?s"
  have "orphaned c ?s' = orphaned c s" by (rule orphaned_cong) simp_all
  with o have "orphaned c (reject_all ?s')" by (simp only: orphaned_reject_all)
  then show ?thesis using Close by (simp add: on_close_def)
next
  case (SocketError sock)
  moreover assume "orphaned c s"
  ultimately show ?thesis by simp
next
  case (Closing sock)
  have "orphaned c (step (Closing sock) s) = orphaned c s"
    by (rule orphaned_cong) simp_all
  moreover assume "orphaned c s"
  ultimately show ?thesis using Closing by simp
next
  case (Invoke uuid ty dat)
  assume o: "orphaned c s"
  then have lt: "c < nextPromise s" by (simp add: orphaned_def)
  show ?thesis
  proof (cases s rule: sendToPlugin_cases)
    case closed
    then show ?thesis
      using Invoke o lt by (simp add: sendToPlugin_closed orphaned_def settlements_def)
  next
    case (opened sock)
    have "list_all (\<lambda>(k, p). promise p \<noteq> c)
            (AList.update uuid \<lparr> promise = nextPromise s, timer = nextTimer s \<rparr> (pendingRequests s))"
      using o lt by (intro list_all_update) (simp_all add: orphaned_def)
    then show ?thesis
      using Invoke o lt by (simp add: sendToPlugin_open [OF opened] orphaned_def settlements_def)
  qed
next
  case (Fire t)
  assume o: "orphaned c s"
  show ?thesis
  proof (cases "timers s t")
    case None
    then show ?thesis using Fire o by simp
  next
    case (Some T)
    show ?thesis
    proof (cases "due T \<le> now s")
      case True
      from o Some have ne: "t_promise T \<noteq> c" by (auto simp: orphaned_def dest: spec [of _ t])
      have "list_all (\<lambda>(k, p). promise p \<noteq> c) (AList.delete (t_requestId T) (pendingRequests s))"
        using o by (auto simp: orphaned_def list_all_iff AList.delete_eq)
      then show ?thesis
        unfolding Fire fire_finish [OF Some True]
        using o ne by (simp add: orphaned_def finish_fields settlements_def)
    next
      case False
      then show ?thesis using Fire Some o by simp
    qed
  qed
next
  case (Advance d)
  have "orphaned c (step (Advance d) s) = orphaned c s"
    by (rule orphaned_cong) simp_all
  moreover assume "orphaned c s"
  ultimately show ?thesis using Advance by simp
qed

lemma orphaned_run: "orphaned c s \<Longrightarrow> orphaned c (run es s)"
  by (induction es arbitrary: s) (simp_all add: orphaned_step del: step.simps)

section \<open>The claims about the server\<close>

text \<open>
  Claim C4. When \<^verbatim>\<open>sendToPlugin\<close> is called while \<^verbatim>\<open>pluginClient\<close> is \<^verbatim>\<open>null\<close> or its
  \<^verbatim>\<open>readyState\<close> is not \<^verbatim>\<open>OPEN\<close>, the promise it returns is rejected in the call itself with
  the "No plugin connected" error, nothing is sent, and neither the map of pending
  requests nor the set of timers changes.
\<close>

theorem invoke_without_open_plugin:
  assumes "pluginClient s = None \<or> (\<exists>sock. pluginClient s = Some sock \<and> readyState s sock \<noteq> OPEN)"
  shows "fst (sendToPlugin uuid ty dat s) = nextPromise s \<and>
         settled (snd (sendToPlugin uuid ty dat s)) =
           settled s @ [(nextPromise s, Rejected NoPluginConnected)] \<and>
         sent (snd (sendToPlugin uuid ty dat s)) = sent s \<and>
         pendingRequests (snd (sendToPlugin uuid ty dat s)) = pendingRequests s \<and>
         timers (snd (sendToPlugin uuid ty dat s)) = timers s"
  using assms by (simp add: sendToPlugin_closed)

theorem invoke_without_open_plugin_witness:
  "pluginClient init = None \<and>
   settled (snd (sendToPlugin ''u1'' ''GET_DOM'' None init)) = [(0, Rejected NoPluginConnected)] \<and>
   sent (snd (sendToPlugin ''u1'' ''GET_DOM'' None init)) = [] \<and>
   pendingRequests (snd (sendToPlugin ''u1'' ''GET_DOM'' None init)) = [] \<and>
   pluginClient (run [Connection 0, Closing 0] init) = Some 0 \<and>
   readyState (run [Connection 0, Closing 0] init) 0 = CLOSING \<and>
   settled (snd (sendToPlugin ''u1'' ''GET_DOM'' None (run [Connection 0, Closing 0] init))) =
     [(0, Rejected NoPluginConnected)] \<and>
   sent (snd (sendToPlugin ''u1'' ''GET_DOM'' None (run [Connection 0, Closing 0] init))) = []"
  using invoke_without_open_plugin [of init "''u1''" "''GET_DOM''" None]
    invoke_without_open_plugin [of "run [Connection 0, Closing 0] init" "''u1''" "''GET_DOM''" None]
  by (simp add: init_def on_connection_def)

text \<open>
  Claim C6, as the code has it. \<^verbatim>\<open>sendToPlugin(type, data)\<close> takes no timeout: whenever it
  registers a call, the timer it sets is due \<^verbatim>\<open>REQUEST_TIMEOUT_MS\<close> = 15000 milliseconds
  after the call, whatever the arguments are.
\<close>

theorem invoke_deadline_fixed:
  assumes "pluginClient s = Some sock" and "readyState s sock = OPEN"
  shows "timers (snd (sendToPlugin uuid ty dat s)) (nextTimer s) =
           Some \<lparr> due = now s + 15000, t_requestId = uuid, t_type = ty, t_promise = nextPromise s \<rparr> \<and>
         map_of (pendingRequests (snd (sendToPlugin uuid ty dat s))) uuid =
           Some \<lparr> promise = nextPromise s, timer = nextTimer s \<rparr> \<and>
         REQUEST_TIMEOUT_MS = 15000"
  using assms by (simp add: sendToPlugin_open update_conv' REQUEST_TIMEOUT_MS_def)

theorem invoke_deadline_fixed_witness:
  "pluginClient (run [Connection 0, Advance 7] init) = Some 0 \<and>
   readyState (run [Connection 0, Advance 7] init) 0 = OPEN \<and>
   map_option due (timers (snd (sendToPlugin ''u1'' ''GET_DOM'' None
      (run [Connection 0, Advance 7] init))) 0) = Some 15007"
  using invoke_deadline_fixed [of "run [Connection 0, Advance 7] init" 0 "''u1''" "''GET_DOM''" None]
  by (simp add: init_def on_connection_def)

text \<open>
  Claim C6 as the specification states it fails: a caller that wants 5 seconds has no
  argument to say so, and the call made at time 0 on an open connection is due at 15000,
  not at \<open>spec_deadline 0 (Some 5000)\<close> = 5000.
\<close>

theorem invoke_deadline_counterexample:
  "map_option due (timers (run [Connection 0, Invoke ''u1'' ''GET_DOM'' None] init) 0)
     \<noteq> Some (spec_deadline (now (run [Connection 0] init)) (Some 5000))"
  by (simp add: eval_defs spec_deadline_def)

text \<open>
  Claim C1, as the code has it. Accepting a connection only stores the new socket in
  \<^verbatim>\<open>pluginClient\<close>: no other socket changes its \<^verbatim>\<open>readyState\<close> (the prior one is not
  closed), the map of pending requests, the timers and the settled promises stay as they
  are, and the next \<^verbatim>\<open>sendToPlugin\<close> sends on the new socket.
\<close>

theorem connection_only_installs:
  "pluginClient (step (Connection sock) s) = Some sock \<and>
   readyState (step (Connection sock) s) = (readyState s)(sock := OPEN) \<and>
   pendingRequests (step (Connection sock) s) = pendingRequests s \<and>
   settled (step (Connection sock) s) = settled s \<and>
   timers (step (Connection sock) s) = timers s \<and>
   sent (step (Connection sock) s) = sent s \<and>
   sent (snd (sendToPlugin uuid ty dat (step (Connection sock) s))) =
     sent s @ [(sock, \<lparr> requestId = Some uuid, type = ty, data = dat \<rparr>)]"
  by (simp add: on_connection_def sendToPlugin_open)

text \<open>
  Claim C1 as stated fails: with one call outstanding on socket 0, accepting socket 1
  leaves socket 0 open, the call in the map and its promise unsettled.
\<close>

theorem connection_counterexample:
  "readyState (run [Connection 0, Invoke ''u1'' ''GET_DOM'' None, Connection 1] init) 0 = OPEN \<and>
   map fst (pendingRequests (run [Connection 0, Invoke ''u1'' ''GET_DOM'' None, Connection 1] init)) = [''u1''] \<and>
   settled (run [Connection 0, Invoke ''u1'' ''GET_DOM'' None, Connection 1] init) = []"
  by (simp add: eval_defs)

text \<open>
  Claim C9. The close handler of any socket empties the shared map and rejects every
  entry with "Plugin disconnected", also when that socket is not \<^verbatim>\<open>pluginClient\<close> (which
  then stays as it is). In the execution where socket 1 displaces socket 0, a call is
  sent on socket 1 and then socket 0 closes, that call is rejected with the disconnect
  error while socket 1 is still installed and open. (A \<^verbatim>\<open>Map\<close> has one entry per key,
  which is the hypothesis.)
\<close>

theorem stale_close_rejects_everything:
  assumes "distinct (map fst (pendingRequests s))"
  shows "pendingRequests (step (Close sock) s) = [] \<and>
         settled (step (Close sock) s) =
           settled s @ map (\<lambda>(k, p). (promise p, Rejected PluginDisconnected)) (pendingRequests s) \<and>
         pluginClient (step (Close sock) s) =
           (if pluginClient s = Some sock then None else pluginClient s) \<and>
         pluginClient (run [Connection 0, Connection 1, Invoke ''u1'' ''GET_DOM'' None, Close 0] init) = Some 1 \<and>
         readyState (run [Connection 0, Connection 1, Invoke ''u1'' ''GET_DOM'' None, Close 0] init) 1 = OPEN \<and>
         map fst (sent (run [Connection 0, Connection 1, Invoke ''u1'' ''GET_DOM'' None, Close 0] init)) = [1] \<and>
         pendingRequests (run [Connection 0, Connection 1, Invoke ''u1'' ''GET_DOM'' None] init) =
           [(''u1'', \<lparr> promise = 0, timer = 0 \<rparr>)] \<and>
         settled (run [Connection 0, Connection 1, Invoke ''u1'' ''GET_DOM'' None, Close 0] init) =
           [(0, Rejected PluginDisconnected)]"
proof -
  have "step (Close sock) s = drained (pendingRequests s)
       (if pluginClient s = Some sock
        then s\<lparr> readyState := (readyState s)(sock := CLOSED), pluginClient := None \<rparr>
        else s\<lparr> readyState := (readyState s)(sock := CLOSED) \<rparr>)"
    using assms by (rule close_drained)
  then have general: "pendingRequests (step (Close sock) s) = [] \<and>
         settled (step (Close sock) s) =
           settled s @ map (\<lambda>(k, p). (promise p, Rejected PluginDisconnected)) (pendingRequests s) \<and>
         pluginClient (step (Close sock) s) =
           (if pluginClient s = Some sock then None else pluginClient s)"
    by (simp add: drained_def)
  let ?s = "run [Connection 0, Connection 1, Invoke ''u1'' ''GET_DOM'' None] init"
  have pend: "pendingRequests ?s = [(''u1'', \<lparr> promise = 0, timer = 0 \<rparr>)]"
    by (simp add: eval_defs)
  have "run [Connection 0, Connection 1, Invoke ''u1'' ''GET_DOM'' None, Close 0] init = step (Close 0) ?s"
    by simp
  also have "\<dots> = drained (pendingRequests ?s)
       (if pluginClient ?s = Some 0
        then ?s\<lparr> readyState := (readyState ?s)(0 := CLOSED), pluginClient := None \<rparr>
        else ?s\<lparr> readyState := (readyState ?s)(0 := CLOSED) \<rparr>)"
    by (rule close_drained) (simp add: eval_defs)
  finally have "run [Connection 0, Connection 1, Invoke ''u1'' ''GET_DOM'' None, Close 0] init = \<dots>" .
  then have concrete:
    "pluginClient (run [Connection 0, Connection 1, Invoke ''u1'' ''GET_DOM'' None, Close 0] init) = Some 1 \<and>
     readyState (run [Connection 0, Connection 1, Invoke ''u1'' ''GET_DOM'' None, Close 0] init) 1 = OPEN \<and>
     map fst (sent (run [Connection 0, Connection 1, Invoke ''u1'' ''GET_DOM'' None, Close 0] init)) = [1] \<and>
     settled (run [Connection 0, Connection 1, Invoke ''u1'' ''GET_DOM'' None, Close 0] init) =
           [(0, Rejected PluginDisconnected)]"
    by (simp add: eval_defs)
  from general concrete pend show ?thesis by blast
qed

theorem stale_close_rejects_everything_witness:
  "distinct (map fst (pendingRequests
      (run [Connection 0, Connection 1, Invoke ''u1'' ''GET_DOM'' None,
            Invoke ''u2'' ''INJECT_CSS'' (Some (JStr ''a{}''))] init))) \<and>
   pluginClient (run [Connection 0, Connection 1, Invoke ''u1'' ''GET_DOM'' None,
            Invoke ''u2'' ''INJECT_CSS'' (Some (JStr ''a{}''))] init) = Some 1 \<and>
   pendingRequests (step (Close 0)
      (run [Connection 0, Connection 1, Invoke ''u1'' ''GET_DOM'' None,
            Invoke ''u2'' ''INJECT_CSS'' (Some (JStr ''a{}''))] init)) = [] \<and>
   settled (step (Close 0)
      (run [Connection 0, Connection 1, Invoke ''u1'' ''GET_DOM'' None,
            Invoke ''u2'' ''INJECT_CSS'' (Some (JStr ''a{}''))] init)) =
     [(0, Rejected PluginDisconnected), (1, Rejected PluginDisconnected)] \<and>
   pluginClient (step (Close 0)
      (run [Connection 0, Connection 1, Invoke ''u1'' ''GET_DOM'' None,
            Invoke ''u2'' ''INJECT_CSS'' (Some (JStr ''a{}''))] init)) = Some 1"
proof -
  let ?s = "run [Connection 0, Connection 1, Invoke ''u1'' ''GET_DOM'' None,
            Invoke ''u2'' ''INJECT_CSS'' (Some (JStr ''a{}''))] init"
  have pend: "pendingRequests ?s =
      [(''u1'', \<lparr> promise = 0, timer = 0 \<rparr>), (''u2'', \<lparr> promise = 1, timer = 1 \<rparr>)]"
    by (simp add: eval_defs)
  have rest: "pluginClient ?s = Some 1" "settled ?s = []"
    by (simp_all add: eval_defs)
  have d: "distinct (map fst (pendingRequests ?s))"
    unfolding pend by simp
  from stale_close_rejects_everything [OF d, of 0] show ?thesis
    unfolding pend rest by simp
qed

text \<open>
  What holds of every state the server reaches by events whose calls got distinct
  \<^verbatim>\<open>requestId\<close>s: a promise is settled at most once, and not while its entry is in the
  map; a pending promise can only be settled by an event that carries its own entry; a
  message with the \<^verbatim>\<open>requestId\<close> of a pending entry removes that entry, clears its timer
  and settles its promise with \<open>reply_outcome\<close> of that message, which is nothing when
  \<^verbatim>\<open>new Error(error)\<close> throws; a message whose \<^verbatim>\<open>requestId\<close> is not in the map and a
  timer that is no longer set leave the state as it is; and the timer of every pending
  entry is set, belongs to it, and rejects its promise with the timeout error when it
  fires.
\<close>

lemma settled_at_most_once:
  fixes es :: "event list"
  defines "s \<equiv> run es init"
  assumes ids: "distinct (invoke_ids es)"
  shows "(\<forall>c. length (settlements c s) \<le> 1) \<and>
         (\<forall>k p. (k, p) \<in> set (pendingRequests s) \<longrightarrow> settlements (promise p) s = []) \<and>
         (\<forall>k p e. (k, p) \<in> set (pendingRequests s) \<and> settlements (promise p) (step e s) \<noteq> []
            \<longrightarrow> carries k (timer p) e) \<and>
         (\<forall>k p sock msg. map_of (pendingRequests s) k = Some p \<and> k \<noteq> [] \<and>
              field ''requestId'' msg = Some (JStr k)
            \<longrightarrow> settled (step (Message sock (Some msg)) s) =
                  settled s @ settles (promise p) (reply_outcome msg) \<and>
                pendingRequests (step (Message sock (Some msg)) s) = AList.delete k (pendingRequests s) \<and>
                timers (step (Message sock (Some msg)) s) = (timers s)(timer p := None)) \<and>
         (\<forall>k sock msg. k \<notin> fst ` set (pendingRequests s) \<and> field ''requestId'' msg = Some (JStr k)
            \<longrightarrow> step (Message sock (Some msg)) s = s) \<and>
         (\<forall>t. timers s t = None \<longrightarrow> step (Fire t) s = s) \<and>
         (\<forall>k p. (k, p) \<in> set (pendingRequests s) \<longrightarrow>
            (\<exists>T. timers s (timer p) = Some T \<and> t_requestId T = k \<and> t_promise T = promise p \<and>
               (due T \<le> now s \<longrightarrow>
                  settled (step (Fire (timer p)) s) =
                    settled s @ [(promise p, Rejected (TimedOut (t_type T)))])))"
proof -
  have c: "consistent s" unfolding s_def by (rule reachable_consistent [OF ids])
  have 0: "length (settlements d s) \<le> 1" for d
    using consistentD(7) [OF c, of d] by (simp add: settlements_def split: if_splits)
  have 1: "settlements (promise p) s = []" if "(k, p) \<in> set (pendingRequests s)" for k p
    by (rule pending_unsettled [OF c that])
  have 2: "carries k (timer p) e"
    if "(k, p) \<in> set (pendingRequests s)" "settlements (promise p) (step e s) \<noteq> []" for k p e
    using not_carried_unsettled [OF c that(1), of e] that(2) by blast
  have 3: "settled (step (Message sock (Some msg)) s) =
             settled s @ settles (promise p) (reply_outcome msg) \<and>
           pendingRequests (step (Message sock (Some msg)) s) = AList.delete k (pendingRequests s) \<and>
           timers (step (Message sock (Some msg)) s) = (timers s)(timer p := None)"
    if "map_of (pendingRequests s) k = Some p" "k \<noteq> []" "field ''requestId'' msg = Some (JStr k)"
    for k p sock msg
    unfolding message_own_id [OF that] by (simp add: finish_fields)
  have 4: "step (Message sock (Some msg)) s = s"
    if "k \<notin> fst ` set (pendingRequests s)" "field ''requestId'' msg = Some (JStr k)" for k sock msg
    using that by (rule message_unknown_id)
  have 5: "step (Fire t) s = s" if "timers s t = None" for t
    using that by simp
  have 6: "\<exists>T. timers s (timer p) = Some T \<and> t_requestId T = k \<and> t_promise T = promise p \<and>
               (due T \<le> now s \<longrightarrow>
                  settled (step (Fire (timer p)) s) =
                    settled s @ [(promise p, Rejected (TimedOut (t_type T)))])"
    if "(k, p) \<in> set (pendingRequests s)" for k p
  proof -
    from consistentD(4) [OF c that] obtain T where T: "timers s (timer p) = Some T"
      "t_requestId T = k" "t_promise T = promise p" by blast
    have "settled (step (Fire (timer p)) s) =
            settled s @ [(promise p, Rejected (TimedOut (t_type T)))]" if "due T \<le> now s"
      unfolding fire_finish [OF T(1) that] by (simp add: finish_fields T)
    with T show ?thesis by blast
  qed
  show ?thesis using 0 1 2 3 4 5 6 by blast
qed

text \<open>
  Claim C2 says that the completion of every call is fulfilled exactly once. The code
  breaks it at the execution \<open>lost_call\<close>: one call with \<^verbatim>\<open>requestId\<close> \<^verbatim>\<open>u1\<close> is pending
  and the frame \<^verbatim>\<open>{"requestId": "u1", "error": {"toString": 1}}\<close> arrives. The message
  handler clears the call's timer and deletes its entry, then \<^verbatim>\<open>new Error(error)\<close> throws
  and the \<^verbatim>\<open>catch\<close> only logs. The entry is gone, the timer is cleared, the promise is
  not settled, and whatever happens afterwards it never is.
\<close>

theorem unconvertible_error_loses_the_call:
  "pendingRequests (run [Connection 0, Invoke ''u1'' ''GET_DOM'' None] init) =
     [(''u1'', \<lparr> promise = 0, timer = 0 \<rparr>)] \<and>
   field ''requestId'' unconvertible_error_u1 = Some (JStr ''u1'') \<and>
   reply_outcome unconvertible_error_u1 = None \<and>
   pendingRequests (run lost_call init) = [] \<and>
   timers (run lost_call init) 0 = None \<and>
   settled (run lost_call init) = [] \<and>
   (\<forall>es. settlements 0 (run es (run lost_call init)) = [])"
proof -
  have a: "pendingRequests (run [Connection 0, Invoke ''u1'' ''GET_DOM'' None] init) =
     [(''u1'', \<lparr> promise = 0, timer = 0 \<rparr>)]"
    by (simp add: eval_defs)
  have b: "field ''requestId'' unconvertible_error_u1 = Some (JStr ''u1'')"
    "reply_outcome unconvertible_error_u1 = None"
    by (simp_all add: unconvertible_error_u1_def reply_outcome_def)
  have c: "pendingRequests (run lost_call init) = []" "timers (run lost_call init) 0 = None"
    "settled (run lost_call init) = []" "nextPromise (run lost_call init) = 1"
    "timers (run lost_call init) = Map.empty"
    by (simp_all add: lost_call_def unconvertible_error_u1_def eval_defs fun_eq_iff)
  have "orphaned 0 (run lost_call init)"
    unfolding orphaned_def c by (simp add: settlements_def c)
  then have "settlements 0 (run es (run lost_call init)) = []" for es
    using orphaned_run [of 0 "run lost_call init" es] by (simp add: orphaned_def)
  with a b c show ?thesis by blast
qed

text \<open>
  Claim C5. In every state the server reaches by events whose calls got distinct
  \<^verbatim>\<open>requestId\<close>s, when the socket that is \<^verbatim>\<open>pluginClient\<close> closes: \<^verbatim>\<open>pluginClient\<close>
  becomes \<^verbatim>\<open>null\<close>, the map is empty afterwards, no timer is left set, one rejection
  with "Plugin disconnected" is added per entry of the map, in the map's order, and
  the promise of every entry has then been settled exactly once, with that rejection.
\<close>

theorem close_rejects_every_pending_call:
  fixes es :: "event list"
  defines "s \<equiv> run es init"
  assumes ids: "distinct (invoke_ids es)" and active: "pluginClient s = Some sock"
  shows "pluginClient (step (Close sock) s) = None \<and>
         pendingRequests (step (Close sock) s) = [] \<and>
         timers (step (Close sock) s) = Map.empty \<and>
         settled (step (Close sock) s) =
           settled s @ map (\<lambda>(k, p). (promise p, Rejected PluginDisconnected)) (pendingRequests s) \<and>
         (\<forall>k p. (k, p) \<in> set (pendingRequests s) \<longrightarrow>
            settlements (promise p) (step (Close sock) s) = [Rejected PluginDisconnected])"
proof -
  have c: "consistent s" unfolding s_def by (rule reachable_consistent [OF ids])
  have st: "step (Close sock) s = drained (pendingRequests s)
       (s\<lparr> readyState := (readyState s)(sock := CLOSED), pluginClient := None \<rparr>)"
    using close_drained [OF consistentD(1) [OF c], of sock] active by simp
  have 1: "pluginClient (step (Close sock) s) = None"
    and 2: "pendingRequests (step (Close sock) s) = []"
    and 4: "settled (step (Close sock) s) =
           settled s @ map (\<lambda>(k, p). (promise p, Rejected PluginDisconnected)) (pendingRequests s)"
    unfolding st by (simp_all add: drained_def)
  have 3: "timers (step (Close sock) s) = Map.empty"
  proof
    fix t
    show "timers (step (Close sock) s) t = None"
    proof (cases "timers s t")
      case None
      then show ?thesis unfolding st by (simp add: drained_def)
    next
      case (Some T)
      from consistentD(5) [OF c Some]
      have "(timer \<circ> snd) (t_requestId T, \<lparr> promise = t_promise T, timer = t \<rparr>)
              \<in> (timer \<circ> snd) ` set (pendingRequests s)"
        by (rule imageI)
      then have "t \<in> set (map (timer \<circ> snd) (pendingRequests s))" by simp
      then show ?thesis unfolding st by (simp add: drained_def)
    qed
  qed
  have 5: "settlements (promise p) (step (Close sock) s) = [Rejected PluginDisconnected]"
    if "(k, p) \<in> set (pendingRequests s)" for k p
    by (rule drained_settlements [OF c that 4])
  show ?thesis using 1 2 3 4 5 by blast
qed

theorem close_rejects_every_pending_call_witness:
  "distinct (invoke_ids two_calls) \<and>
   pluginClient (run two_calls init) = Some 0 \<and>
   pendingRequests (run two_calls init) =
     [(''u1'', \<lparr> promise = 0, timer = 0 \<rparr>), (''u2'', \<lparr> promise = 1, timer = 1 \<rparr>)] \<and>
   pluginClient (step (Close 0) (run two_calls init)) = None \<and>
   pendingRequests (step (Close 0) (run two_calls init)) = [] \<and>
   timers (step (Close 0) (run two_calls init)) = Map.empty \<and>
   settled (step (Close 0) (run two_calls init)) =
     [(0, Rejected PluginDisconnected), (1, Rejected PluginDisconnected)] \<and>
   settlements 0 (step (Close 0) (run two_calls init)) = [Rejected PluginDisconnected] \<and>
   settlements 1 (step (Close 0) (run two_calls init)) = [Rejected PluginDisconnected]"
proof -
  let ?s = "run two_calls init"
  have d: "distinct (invoke_ids two_calls)" by (simp add: two_calls_def)
  have a: "pluginClient ?s = Some 0" by (simp add: two_calls_def eval_defs)
  have pend: "pendingRequests ?s =
     [(''u1'', \<lparr> promise = 0, timer = 0 \<rparr>), (''u2'', \<lparr> promise = 1, timer = 1 \<rparr>)]"
    by (simp add: two_calls_def eval_defs)
  have st: "settled ?s = []" by (simp add: two_calls_def eval_defs)
  note T = close_rejects_every_pending_call [OF d a]
  from T have 1: "pluginClient (step (Close 0) ?s) = None"
    and 2: "pendingRequests (step (Close 0) ?s) = []"
    and 3: "timers (step (Close 0) ?s) = Map.empty" by blast+
  from T have "settled (step (Close 0) ?s) =
      settled ?s @ map (\<lambda>(k, p). (promise p, Rejected PluginDisconnected)) (pendingRequests ?s)"
    by blast
  then have 4: "settled (step (Close 0) ?s) =
      [(0, Rejected PluginDisconnected), (1, Rejected PluginDisconnected)]"
    unfolding pend st by simp
  from T have each: "\<forall>k p. (k, p) \<in> set (pendingRequests ?s) \<longrightarrow>
      settlements (promise p) (step (Close 0) ?s) = [Rejected PluginDisconnected]"
    by blast
  have "(''u1'', \<lparr> promise = 0, timer = 0 \<rparr>) \<in> set (pendingRequests ?s)" unfolding pend by simp
  with each have "settlements (promise \<lparr> promise = 0, timer = 0 \<rparr>) (step (Close 0) ?s) =
      [Rejected PluginDisconnected]" by blast
  then have 5: "settlements 0 (step (Close 0) ?s) = [Rejected PluginDisconnected]" by simp
  have "(''u2'', \<lparr> promise = 1, timer = 1 \<rparr>) \<in> set (pendingRequests ?s)" unfolding pend by simp
  with each have "settlements (promise \<lparr> promise = 1, timer = 1 \<rparr>) (step (Close 0) ?s) =
      [Rejected PluginDisconnected]" by blast
  then have 6: "settlements 1 (step (Close 0) ?s) = [Rejected PluginDisconnected]" by simp
  from d a pend 1 2 3 4 5 6 show ?thesis by blast
qed

text \<open>
  Claim C3 as stated fails: in the execution \<open>stale_close\<close> no message arrives at all,
  the call's own connection (socket 1) stays installed and open, and 15 seconds pass;
  yet the call has been rejected with "Plugin disconnected" by the close of socket 0,
  and the firing of its timer changes nothing: there is no timeout error.
\<close>

theorem timeout_counterexample:
  "pluginClient (run stale_close init) = Some 1 \<and>
   readyState (run stale_close init) 1 = OPEN \<and>
   map fst (sent (run stale_close init)) = [1] \<and>
   now (run stale_close init) = 15000 \<and>
   settled (run stale_close init) = [(0, Rejected PluginDisconnected)] \<and>
   step (Fire 0) (run stale_close init) = run stale_close init"
proof -
  let ?s = "run [Connection 0, Connection 1, Invoke ''u1'' ''GET_DOM'' None] init"
  let ?d = "drained (pendingRequests ?s)
       (if pluginClient ?s = Some 0
        then ?s\<lparr> readyState := (readyState ?s)(0 := CLOSED), pluginClient := None \<rparr>
        else ?s\<lparr> readyState := (readyState ?s)(0 := CLOSED) \<rparr>)"
  have "step (Close 0) ?s = ?d"
    by (rule close_drained) (simp add: eval_defs)
  then have run: "run stale_close init = step (Advance 15000) ?d"
    by (simp add: stale_close_def)
  have 1: "pluginClient (run stale_close init) = Some 1"
    and 2: "readyState (run stale_close init) 1 = OPEN"
    and 3: "map fst (sent (run stale_close init)) = [1]"
    and 4: "now (run stale_close init) = 15000"
    and 5: "settled (run stale_close init) = [(0, Rejected PluginDisconnected)]"
    and t: "timers (run stale_close init) 0 = None"
    unfolding run by (simp_all add: eval_defs)
  from t have 6: "step (Fire 0) (run stale_close init) = run stale_close init" by simp
  from 1 2 3 4 5 6 show ?thesis by blast
qed

text \<open>
  Claim C3, as the code has it. Take a call that \<^verbatim>\<open>sendToPlugin\<close> registered at time
  \<open>now s0\<close> on an open connection, in an execution whose calls got distinct
  \<^verbatim>\<open>requestId\<close>s, and a later state \<open>s\<close>. If since the call no message with its
  \<^verbatim>\<open>requestId\<close> has arrived, no socket has closed and its timer has not fired, then its
  entry is still in the map. And whenever its entry is still in the map: its timer does
  nothing before \<open>now s0 + 15000\<close>; from then on, when it fires, the call's promise is
  rejected with the timeout error for its \<^verbatim>\<open>type\<close>, which is the one and only settlement
  of that promise, and the entry is gone; after that a message with the call's
  \<^verbatim>\<open>requestId\<close>, on any socket and with any content, leaves the state exactly as it is,
  and so does a second firing of the timer.
\<close>

theorem timeout_rejects_and_late_reply_is_dropped:
  fixes es es' :: "event list" and k ty :: string and dat :: "json option"
  defines "s0 \<equiv> run es init"
  defines "s \<equiv> run (es @ Invoke k ty dat # es') init"
  assumes ids: "distinct (invoke_ids (es @ Invoke k ty dat # es'))"
    and conn: "pluginClient s0 = Some sock" "readyState s0 sock = OPEN"
  shows "((\<forall>e \<in> set es'. \<not> carries k (nextTimer s0) e) \<longrightarrow>
            k \<in> fst ` set (pendingRequests s)) \<and>
         (k \<in> fst ` set (pendingRequests s) \<longrightarrow>
           (now s < now s0 + 15000 \<longrightarrow> step (Fire (nextTimer s0)) s = s) \<and>
           (now s0 + 15000 \<le> now s \<longrightarrow>
              settled (step (Fire (nextTimer s0)) s) =
                settled s @ [(nextPromise s0, Rejected (TimedOut ty))] \<and>
              settlements (nextPromise s0) (step (Fire (nextTimer s0)) s) = [Rejected (TimedOut ty)] \<and>
              k \<notin> fst ` set (pendingRequests (step (Fire (nextTimer s0)) s)) \<and>
              (\<forall>sock' msg. field ''requestId'' msg = Some (JStr k) \<longrightarrow>
                 step (Message sock' (Some msg)) (step (Fire (nextTimer s0)) s) =
                   step (Fire (nextTimer s0)) s) \<and>
              step (Fire (nextTimer s0)) (step (Fire (nextTimer s0)) s) =
                step (Fire (nextTimer s0)) s))"
proof -
  let ?p = "\<lparr> promise = nextPromise s0, timer = nextTimer s0 \<rparr>"
  let ?T = "\<lparr> due = now s0 + REQUEST_TIMEOUT_MS, t_requestId = k, t_type = ty,
              t_promise = nextPromise s0 \<rparr>"
  let ?s1 = "snd (sendToPlugin k ty dat s0)"
  have idsplit: "invoke_ids (es @ Invoke k ty dat # es') = invoke_ids es @ k # invoke_ids es'"
    by (simp add: invoke_ids_append)
  have d0: "distinct (invoke_ids es)" and d1: "distinct (invoke_ids es')"
    and k0: "k \<notin> set (invoke_ids es)" and k1: "k \<notin> set (invoke_ids es')"
    and disj: "set (invoke_ids es) \<inter> set (invoke_ids es') = {}"
    using ids unfolding idsplit by auto
  have c0: "consistent s0" unfolding s0_def by (rule reachable_consistent [OF d0])
  have keys0: "fst ` set (pendingRequests s0) \<subseteq> set (invoke_ids es)"
    using keys_run [of es init] unfolding s0_def by (simp add: init_def)
  have fresh: "k \<notin> fst ` set (pendingRequests s0)" using keys0 k0 by auto
  have c1: "consistent ?s1" using sendToPlugin_consistent [OF c0 fresh] by simp
  have s1: "pendingRequests ?s1 = AList.update k ?p (pendingRequests s0)"
    "timers ?s1 = (timers s0)(nextTimer s0 \<mapsto> ?T)"
    by (simp_all add: sendToPlugin_open [OF conn])
  have m1: "map_of (pendingRequests ?s1) k = Some ?p" by (simp add: s1 update_conv')
  have keys1: "fst ` set (pendingRequests ?s1) \<subseteq> insert k (set (invoke_ids es))"
  proof -
    have "fst ` set (pendingRequests ?s1) \<subseteq> fst ` set (pendingRequests s0) \<union> {k}"
      using keys_step [of "Invoke k ty dat" s0] by simp
    with keys0 show ?thesis by blast
  qed
  have s: "s = run es' ?s1" unfolding s_def s0_def by (simp add: run_append)
  have c: "consistent s" unfolding s_def by (rule reachable_consistent [OF ids])
  have disj1: "set (invoke_ids es') \<inter> fst ` set (pendingRequests ?s1) = {}"
    using keys1 k1 disj by auto
  have quiet: "k \<in> fst ` set (pendingRequests s)"
    if q: "\<forall>e \<in> set es'. \<not> carries k (nextTimer s0) e"
  proof -
    from q have "\<forall>e \<in> set es'. \<not> carries k (timer ?p) e" by simp
    from run_not_carried_keeps [OF c1 d1 disj1 k1 m1 this]
    have "map_of (pendingRequests s) k = Some ?p" unfolding s .
    then show ?thesis by (auto dest: map_of_SomeD simp: rev_image_eqI)
  qed
  have rest: "(now s < now s0 + 15000 \<longrightarrow> step (Fire (nextTimer s0)) s = s) \<and>
           (now s0 + 15000 \<le> now s \<longrightarrow>
              settled (step (Fire (nextTimer s0)) s) =
                settled s @ [(nextPromise s0, Rejected (TimedOut ty))] \<and>
              settlements (nextPromise s0) (step (Fire (nextTimer s0)) s) = [Rejected (TimedOut ty)] \<and>
              k \<notin> fst ` set (pendingRequests (step (Fire (nextTimer s0)) s)) \<and>
              (\<forall>sock' msg. field ''requestId'' msg = Some (JStr k) \<longrightarrow>
                 step (Message sock' (Some msg)) (step (Fire (nextTimer s0)) s) =
                   step (Fire (nextTimer s0)) s) \<and>
              step (Fire (nextTimer s0)) (step (Fire (nextTimer s0)) s) =
                step (Fire (nextTimer s0)) s)"
    if pending: "k \<in> fst ` set (pendingRequests s)"
  proof -
    from pending obtain p where p: "map_of (pendingRequests s) k = Some p"
      by (cases "map_of (pendingRequests s) k") (auto simp: map_of_eq_None_iff)
    from run_keeps_entry [OF c1 d1 disj1 k1 p [unfolded s]]
    have "map_of (pendingRequests ?s1) k = Some p" and tp: "timers s (timer p) = timers ?s1 (timer p)"
      unfolding s by auto
    then have pp: "p = ?p" by (simp add: s1 update_conv')
    have T: "timers s (nextTimer s0) = Some ?T" using tp unfolding pp by (simp add: s1)
    have kp: "(k, ?p) \<in> set (pendingRequests s)" using p pp by (auto dest: map_of_SomeD)
    have early: "step (Fire (nextTimer s0)) s = s" if "now s < now s0 + 15000"
      using that T by (simp add: REQUEST_TIMEOUT_MS_def)
    have late: "step (Fire (nextTimer s0)) s = finish k ?p (Some (Rejected (TimedOut ty))) s"
      if "now s0 + 15000 \<le> now s"
      using fire_finish [OF T] that by (simp add: REQUEST_TIMEOUT_MS_def)
    let ?s' = "finish k ?p (Some (Rejected (TimedOut ty))) s"
    have a: "settled ?s' = settled s @ [(nextPromise s0, Rejected (TimedOut ty))]"
      by (simp add: finish_fields)
    have b: "settlements (nextPromise s0) ?s' = [Rejected (TimedOut ty)]"
      using settlements_append [OF a, of "nextPromise s0"] pending_unsettled [OF c kp] by simp
    have gone: "k \<notin> fst ` set (pendingRequests ?s')"
      by (simp add: finish_fields delete_notin_dom)
    have d: "step (Message sock' (Some msg)) ?s' = ?s'"
      if "field ''requestId'' msg = Some (JStr k)" for sock' msg
      by (rule message_unknown_id [OF gone that])
    have e: "step (Fire (nextTimer s0)) ?s' = ?s'"
      by (simp add: finish_fields)
    show ?thesis using early late a b gone d e by auto
  qed
  from quiet rest show ?thesis by blast
qed

theorem timeout_rejects_and_late_reply_is_dropped_witness:
  "distinct (invoke_ids ([Connection 0] @ Invoke ''u1'' ''GET_DOM'' None # [Advance 15000])) \<and>
   pluginClient (run [Connection 0] init) = Some 0 \<and>
   readyState (run [Connection 0] init) 0 = OPEN \<and>
   \<not> carries ''u1'' 0 (Advance 15000) \<and>
   ''u1'' \<in> fst ` set (pendingRequests
      (run ([Connection 0] @ Invoke ''u1'' ''GET_DOM'' None # [Advance 15000]) init)) \<and>
   now (run [Connection 0] init) + 15000
     \<le> now (run ([Connection 0] @ Invoke ''u1'' ''GET_DOM'' None # [Advance 15000]) init) \<and>
   settled (step (Fire 0)
      (run ([Connection 0] @ Invoke ''u1'' ''GET_DOM'' None # [Advance 15000]) init)) =
     [(0, Rejected (TimedOut ''GET_DOM''))] \<and>
   step (Message 0 (Some error_u1)) (step (Fire 0)
      (run ([Connection 0] @ Invoke ''u1'' ''GET_DOM'' None # [Advance 15000]) init)) =
     step (Fire 0) (run ([Connection 0] @ Invoke ''u1'' ''GET_DOM'' None # [Advance 15000]) init) \<and>
   \<not> carries ''u1'' 0 (Advance 14999) \<and>
   ''u1'' \<in> fst ` set (pendingRequests
      (run ([Connection 0] @ Invoke ''u1'' ''GET_DOM'' None # [Advance 14999]) init)) \<and>
   now (run ([Connection 0] @ Invoke ''u1'' ''GET_DOM'' None # [Advance 14999]) init)
     < now (run [Connection 0] init) + 15000 \<and>
   step (Fire 0) (run ([Connection 0] @ Invoke ''u1'' ''GET_DOM'' None # [Advance 14999]) init) =
     run ([Connection 0] @ Invoke ''u1'' ''GET_DOM'' None # [Advance 14999]) init"
proof -
  let ?s0 = "run [Connection 0] init"
  let ?late = "run ([Connection 0] @ Invoke ''u1'' ''GET_DOM'' None # [Advance 15000]) init"
  let ?early = "run ([Connection 0] @ Invoke ''u1'' ''GET_DOM'' None # [Advance 14999]) init"
  have d1: "distinct (invoke_ids ([Connection 0] @ Invoke ''u1'' ''GET_DOM'' None # [Advance 15000]))"
    and d2: "distinct (invoke_ids ([Connection 0] @ Invoke ''u1'' ''GET_DOM'' None # [Advance 14999]))"
    by simp_all
  have conn: "pluginClient ?s0 = Some 0" "readyState ?s0 0 = OPEN"
    by (simp_all add: eval_defs)
  have s0: "nextTimer ?s0 = 0" "nextPromise ?s0 = 0" "now ?s0 = 0"
    by (simp_all add: eval_defs)
  have q1: "\<forall>e \<in> set [Advance 15000]. \<not> carries ''u1'' 0 e"
    and q2: "\<forall>e \<in> set [Advance 14999]. \<not> carries ''u1'' 0 e" by simp_all
  have n1: "now ?s0 + 15000 \<le> now ?late" and n2: "now ?early < now ?s0 + 15000"
    and st: "settled ?late = []"
    by (simp_all add: eval_defs)
  note L = timeout_rejects_and_late_reply_is_dropped [OF d1 conn, unfolded s0]
  note E = timeout_rejects_and_late_reply_is_dropped [OF d2 conn, unfolded s0]
  from L q1 have p1: "''u1'' \<in> fst ` set (pendingRequests ?late)" by blast
  from E q2 have p2: "''u1'' \<in> fst ` set (pendingRequests ?early)" by blast
  from L p1 n1 [unfolded s0] have a: "settled (step (Fire 0) ?late) =
      settled ?late @ [(0, Rejected (TimedOut ''GET_DOM''))]" by blast
  from L p1 n1 [unfolded s0] have "\<forall>sock' msg. field ''requestId'' msg = Some (JStr ''u1'') \<longrightarrow>
      step (Message sock' (Some msg)) (step (Fire 0) ?late) = step (Fire 0) ?late" by blast
  moreover have "field ''requestId'' error_u1 = Some (JStr ''u1'')" by (simp add: error_u1_def)
  ultimately have b: "step (Message 0 (Some error_u1)) (step (Fire 0) ?late) = step (Fire 0) ?late"
    by blast
  from E p2 n2 [unfolded s0] have c: "step (Fire 0) ?early = ?early" by blast
  from d1 conn p1 n1 a [unfolded st] b p2 n2 c show ?thesis by simp
qed

section \<open>Lemmas about the plugin\<close>

lemma agent_run_append: "agent_run (xs @ ys) a = agent_run ys (agent_run xs a)"
  by (induction xs arbitrary: a) simp_all

lemma failed_attempts_append:
  "failed_attempts (xs @ ys) = failed_attempts xs @ failed_attempts ys"
  by (induction xs) simp_all

lemma connectWebSocket_backoff [simp]:
  "reconnectAttempt (connectWebSocket a) = reconnectAttempt a"
  "reconnects (connectWebSocket a) = reconnects a"
  by (simp_all add: connectWebSocket_def Let_def split: option.splits)

lemma timer_backoff:
  "reconnectAttempt (agent_step ReconnectTimer a) = reconnectAttempt a"
  by (simp split: list.splits)

lemma close_backoff:
  "reconnectAttempt (agent_step (SocketClose w) a) = Suc (reconnectAttempt a)"
  "reconnects (agent_step (SocketClose w) a) =
     reconnects a @ [min (1000 * 2 ^ reconnectAttempt a) 30000]"
  by (simp_all add: scheduleReconnect_def RECONNECT_BASE_MS_def RECONNECT_MAX_MS_def Let_def)

lemma failed_attempts_counter:
  "reconnectAttempt (agent_run (failed_attempts socks) a) = reconnectAttempt a + length socks"
  by (induction socks arbitrary: a) (simp_all add: close_backoff timer_backoff del: agent_step.simps)

lemma failed_attempts_snoc:
  "agent_run (failed_attempts (socks @ [w])) a =
     agent_step (SocketClose w) (agent_step ReconnectTimer (agent_run (failed_attempts socks) a))"
  by (simp add: failed_attempts_append agent_run_append)

lemma last_delay:
  assumes "reconnectAttempt a = 1" and "socks \<noteq> []"
  shows "reconnects (agent_run (failed_attempts socks) a) \<noteq> [] \<and>
         last (reconnects (agent_run (failed_attempts socks) a)) = min (1000 * 2 ^ length socks) 30000"
proof -
  from assms(2) obtain xs x where socks: "socks = xs @ [x]" by (cases socks rule: rev_cases) auto
  let ?b = "agent_step ReconnectTimer (agent_run (failed_attempts xs) a)"
  have "reconnectAttempt ?b = 1 + length xs"
    using assms(1) by (simp add: failed_attempts_counter timer_backoff del: agent_step.simps)
  then have "reconnects (agent_step (SocketClose x) ?b) =
      reconnects ?b @ [min (1000 * 2 ^ (1 + length xs)) 30000]"
    by (simp only: close_backoff)
  then show ?thesis unfolding socks failed_attempts_snoc by (simp del: agent_step.simps)
qed


lemma sendError_open:
  "ws a = Some w \<Longrightarrow> wsState a w = OPEN \<Longrightarrow>
   sendError rid err a = a\<lparr> outbox := outbox a @ [(w, ErrorResponse rid err)] \<rparr>"
  by (simp add: sendError_def)

lemma sendResponse_open:
  "ws a = Some w \<Longrightarrow> wsState a w = OPEN \<Longrightarrow>
   sendResponse rid ty dat ok a = a\<lparr> outbox := outbox a @ [(w, Response rid ty dat ok)] \<rparr>"
  by (simp add: sendResponse_def)

lemma send_doc [simp]:
  "doc (sendError rid err a) = doc a" "doc (sendResponse rid ty dat ok a) = doc a"
  by (simp_all add: sendError_def sendResponse_def split: option.splits)

lemma connected_agent_eval:
  "ws connected_agent = Some 0" "wsState connected_agent 0 = OPEN"
  "outbox connected_agent = []" "doc connected_agent = themed_page"
  "reconnects connected_agent = []"
  by (simp_all add: connected_agent_def agent_init_def connectWebSocket_def)

section \<open>The claims about the plugin\<close>

text \<open>
  Claim C7. Every close of a socket schedules \<^verbatim>\<open>connectWebSocket\<close> after
  \<open>min (RECONNECT_BASE_MS * 2 ^ reconnectAttempt) RECONNECT_MAX_MS\<close> milliseconds, with the
  constants 1000 and 30000, and then adds one to \<open>reconnectAttempt\<close>; an open sets
  \<open>reconnectAttempt\<close> to zero, so the close that follows an open schedules after 1000.
  Hence after an open, the loss of that connection and then \<open>k\<close> connection attempts
  that fail one after the other, the delay scheduled last is \<open>min (1000 * 2 ^ k) 30000\<close>
  and the counter is \<open>k + 1\<close>. (\<^verbatim>\<open>Math.pow\<close> and \<^verbatim>\<open>Math.min\<close> work on doubles: the product
  is exact or infinite, so the minimum is the one over the naturals; the counter is a
  natural number here.)
\<close>

theorem reconnect_backoff:
  "reconnectAttempt (agent_step (SocketClose w) a) = Suc (reconnectAttempt a) \<and>
   reconnects (agent_step (SocketClose w) a) =
     reconnects a @ [min (RECONNECT_BASE_MS * 2 ^ reconnectAttempt a) RECONNECT_MAX_MS] \<and>
   RECONNECT_BASE_MS = 1000 \<and> RECONNECT_MAX_MS = 30000 \<and>
   reconnectAttempt (agent_step (SocketOpen w) a) = 0 \<and>
   reconnects (agent_run [SocketOpen w, SocketClose w'] a) = reconnects a @ [1000] \<and>
   reconnectAttempt (agent_run (SocketOpen w # SocketClose w' # failed_attempts socks) a) =
     Suc (length socks) \<and>
   reconnects (agent_run (SocketOpen w # SocketClose w' # failed_attempts socks) a) \<noteq> [] \<and>
   last (reconnects (agent_run (SocketOpen w # SocketClose w' # failed_attempts socks) a)) =
     min (1000 * 2 ^ length socks) 30000"
proof -
  let ?a1 = "agent_run [SocketOpen w, SocketClose w'] a"
  have zero: "reconnectAttempt (agent_step (SocketOpen w) a) = 0"
    and r0: "reconnects (agent_step (SocketOpen w) a) = reconnects a" by simp_all
  have one: "reconnectAttempt ?a1 = 1" and r1: "reconnects ?a1 = reconnects a @ [1000]"
    by (simp_all add: close_backoff zero r0 del: agent_step.simps)
  have run: "agent_run (SocketOpen w # SocketClose w' # failed_attempts socks) a =
      agent_run (failed_attempts socks) ?a1" by (simp del: agent_step.simps)
  have cnt: "reconnectAttempt (agent_run (SocketOpen w # SocketClose w' # failed_attempts socks) a) =
      Suc (length socks)"
    unfolding run failed_attempts_counter one by simp
  have lst: "reconnects (agent_run (SocketOpen w # SocketClose w' # failed_attempts socks) a) \<noteq> [] \<and>
      last (reconnects (agent_run (SocketOpen w # SocketClose w' # failed_attempts socks) a)) =
        min (1000 * 2 ^ length socks) 30000"
  proof (cases "socks = []")
    case True
    then show ?thesis using r1 by (simp del: agent_step.simps)
  next
    case False
    from last_delay [OF one False] show ?thesis unfolding run .
  qed
  show ?thesis
    using cnt lst r1 zero close_backoff [of w a]
    by (simp add: RECONNECT_BASE_MS_def RECONNECT_MAX_MS_def del: agent_step.simps agent_run.simps)
qed

theorem reconnect_backoff_witness:
  "map (\<lambda>k. last (reconnects (agent_run
          (SocketOpen 0 # SocketClose 0 # failed_attempts (map Suc [0..<k])) connected_agent)))
       [0, 1, 2, 3, 4, 5, 6] =
     [1000, 2000, 4000, 8000, 16000, 30000, 30000] \<and>
   reconnectAttempt (agent_run
          (SocketOpen 0 # SocketClose 0 # failed_attempts (map Suc [0..<6])) connected_agent) = 7"
proof -
  have "last (reconnects (agent_run
          (SocketOpen 0 # SocketClose 0 # failed_attempts (map Suc [0..<k])) connected_agent)) =
        min (1000 * 2 ^ k) 30000" for k
    using reconnect_backoff [of 0 connected_agent 0 "map Suc [0..<k]"] by simp
  moreover have "reconnectAttempt (agent_run
          (SocketOpen 0 # SocketClose 0 # failed_attempts (map Suc [0..<6])) connected_agent) = 7"
    using reconnect_backoff [of 0 connected_agent 0 "map Suc [0..<6]"] by simp
  ultimately show ?thesis by simp
qed

text \<open>
  Claim C8. When the plugin is connected (\<open>ws\<close> is a socket whose \<^verbatim>\<open>readyState\<close> is
  \<^verbatim>\<open>OPEN\<close>) and a message with a \<^verbatim>\<open>requestId\<close> arrives, it sends exactly one reply, on
  that socket, with the same \<^verbatim>\<open>requestId\<close>: for \<^verbatim>\<open>GET_DOM\<close> the snapshot as a response,
  or an error when taking it throws; for \<^verbatim>\<open>INJECT_CSS\<close> an error when the payload is not a
  non-empty string, the \<^verbatim>\<open>CSS_INJECTED\<close> response when the injection succeeds, an error when
  it throws; for any other \<^verbatim>\<open>type\<close> an error naming the unknown type. A message has a
  \<^verbatim>\<open>requestId\<close> when the field is there and not empty: that is the code's test
  (\<^verbatim>\<open>!requestId\<close> is what it logs as "Message without requestId").
\<close>

theorem one_reply_per_request:
  assumes conn: "ws a = Some w" "wsState a w = OPEN"
    and rid: "requestId m = Some rid" "rid \<noteq> []"
  shows "\<exists>r. outbox (agent_step (SocketMessage w (Some m)) a) = outbox a @ [(w, r)] \<and>
          reply_id r = rid \<and>
          (type m = ''GET_DOM'' \<longrightarrow>
             (\<forall>snapshot. cleanSnapshot (doc a) = Inr snapshot \<longrightarrow>
                r = Response rid ''DOM_SNAPSHOT'' (JStr snapshot) True) \<and>
             (\<forall>msg. cleanSnapshot (doc a) = Inl msg \<longrightarrow>
                r = ErrorResponse rid (''Failed to capture DOM: '' @ msg))) \<and>
          (type m = ''INJECT_CSS'' \<longrightarrow>
             (\<not> truthy_opt (data m) \<or> typeof (data m) \<noteq> ''string'' \<longrightarrow>
                r = ErrorResponse rid ''Invalid CSS: expected a non-empty string'') \<and>
             (truthy_opt (data m) \<and> typeof (data m) = ''string'' \<longrightarrow>
                (\<forall>d. injectCSS (as_string (data m)) (doc a) = Inr d \<longrightarrow>
                   r = Response rid ''CSS_INJECTED'' JNull True) \<and>
                (\<forall>msg. injectCSS (as_string (data m)) (doc a) = Inl msg \<longrightarrow>
                   r = ErrorResponse rid (''Failed to inject CSS: '' @ msg)))) \<and>
          (type m \<noteq> ''GET_DOM'' \<and> type m \<noteq> ''INJECT_CSS'' \<longrightarrow>
             r = ErrorResponse rid (''Unknown message type: '' @ type m))"
proof -
  have conn': "ws (a\<lparr> doc := d \<rparr>) = Some w" "wsState (a\<lparr> doc := d \<rparr>) w = OPEN" for d
    using conn by simp_all
  show ?thesis
    using rid
    by (auto simp: handleMessage_def sendError_open [OF conn] sendResponse_open [OF conn]
        sendResponse_open [OF conn'] Let_def split: sum.splits)
qed

theorem one_reply_per_request_witness:
  "ws connected_agent = Some 0 \<and> wsState connected_agent 0 = OPEN \<and>
   outbox (agent_step (SocketMessage 0
      (Some \<lparr> requestId = Some ''u1'', type = ''GET_DOM'', data = None \<rparr>)) connected_agent) =
     [(0, Response ''u1'' ''DOM_SNAPSHOT'' (JStr ''<body></body>'') True)] \<and>
   outbox (agent_step (SocketMessage 0
      (Some \<lparr> requestId = Some ''u2'', type = ''INJECT_CSS'', data = Some (JStr ''b{}'') \<rparr>))
      connected_agent) =
     [(0, Response ''u2'' ''CSS_INJECTED'' JNull True)] \<and>
   outbox (agent_step (SocketMessage 0
      (Some \<lparr> requestId = Some ''u3'', type = ''PING'', data = None \<rparr>)) connected_agent) =
     [(0, ErrorResponse ''u3'' ''Unknown message type: PING'')]"
proof -
  note c = connected_agent_eval(1,2)
  have inj: "injectCSS ''b{}'' themed_page = Inr (themed_page\<lparr> styleEl := Some ''b{}'' \<rparr>)"
    by (simp add: injectCSS_def themed_page_def)
  from one_reply_per_request [OF c, of "\<lparr> requestId = Some ''u1'', type = ''GET_DOM'', data = None \<rparr>" "''u1''"]
  have 1: "outbox (agent_step (SocketMessage 0
      (Some \<lparr> requestId = Some ''u1'', type = ''GET_DOM'', data = None \<rparr>)) connected_agent) =
     [(0, Response ''u1'' ''DOM_SNAPSHOT'' (JStr ''<body></body>'') True)]"
    unfolding connected_agent_eval by (auto simp del: agent_step.simps simp: themed_page_def)
  from one_reply_per_request [OF c, of "\<lparr> requestId = Some ''u2'', type = ''INJECT_CSS'', data = Some (JStr ''b{}'') \<rparr>" "''u2''"]
  have 2: "outbox (agent_step (SocketMessage 0
      (Some \<lparr> requestId = Some ''u2'', type = ''INJECT_CSS'', data = Some (JStr ''b{}'') \<rparr>))
      connected_agent) =
     [(0, Response ''u2'' ''CSS_INJECTED'' JNull True)]"
    unfolding connected_agent_eval by (auto simp del: agent_step.simps simp: inj)
  from one_reply_per_request [OF c, of "\<lparr> requestId = Some ''u3'', type = ''PING'', data = None \<rparr>" "''u3''"]
  have 3: "outbox (agent_step (SocketMessage 0
      (Some \<lparr> requestId = Some ''u3'', type = ''PING'', data = None \<rparr>)) connected_agent) =
     [(0, ErrorResponse ''u3'' ''Unknown message type: PING'')]"
    unfolding connected_agent_eval by (auto simp del: agent_step.simps)
  from c 1 2 3 show ?thesis by blast
qed

text \<open>
  Claim C10. For an \<^verbatim>\<open>INJECT_CSS\<close> message whose payload is the empty string or is not a
  string, \<^verbatim>\<open>handleMessage\<close> leaves the page as it is (\<^verbatim>\<open>injectCSS\<close> does not run, the
  style element keeps its content) and changes nothing of the plugin's state but what was
  sent; and when the message has a \<^verbatim>\<open>requestId\<close> and the plugin is connected, what it
  sends is the one error reply "Invalid CSS: expected a non-empty string" with that
  \<^verbatim>\<open>requestId\<close>.
\<close>

theorem invalid_css_is_refused:
  assumes ty: "type m = ''INJECT_CSS''"
    and bad: "data m = Some (JStr []) \<or> typeof (data m) \<noteq> ''string''"
  shows "doc (handleMessage m a) = doc a \<and>
         handleMessage m a = a\<lparr> outbox := outbox (handleMessage m a) \<rparr> \<and>
         (\<forall>w rid. ws a = Some w \<and> wsState a w = OPEN \<and> requestId m = Some rid \<and> rid \<noteq> [] \<longrightarrow>
            outbox (handleMessage m a) =
              outbox a @ [(w, ErrorResponse rid ''Invalid CSS: expected a non-empty string'')])"
proof -
  from bad have inv: "\<not> truthy_opt (data m) \<or> typeof (data m) \<noteq> ''string''" by auto
  have "(handleMessage m a = a \<and> (requestId m = None \<or> requestId m = Some [])) \<or>
        (\<exists>rid. rid \<noteq> [] \<and> requestId m = Some rid \<and>
           handleMessage m a = sendError rid ''Invalid CSS: expected a non-empty string'' a)"
    using ty inv by (cases "requestId m") (auto simp: handleMessage_def Let_def)
  then show ?thesis
    by (auto simp: sendError_def split: option.splits)
qed

theorem invalid_css_is_refused_witness:
  "typeof (Some (JNum 5)) \<noteq> ''string'' \<and>
   styleEl (doc (handleMessage
      \<lparr> requestId = Some ''u1'', type = ''INJECT_CSS'', data = Some (JStr []) \<rparr> connected_agent)) =
     Some ''a{}'' \<and>
   outbox (handleMessage
      \<lparr> requestId = Some ''u1'', type = ''INJECT_CSS'', data = Some (JStr []) \<rparr> connected_agent) =
     [(0, ErrorResponse ''u1'' ''Invalid CSS: expected a non-empty string'')] \<and>
   styleEl (doc (handleMessage
      \<lparr> requestId = Some ''u2'', type = ''INJECT_CSS'', data = Some (JNum 5) \<rparr> connected_agent)) =
     Some ''a{}'' \<and>
   outbox (handleMessage
      \<lparr> requestId = Some ''u2'', type = ''INJECT_CSS'', data = Some (JNum 5) \<rparr> connected_agent) =
     [(0, ErrorResponse ''u2'' ''Invalid CSS: expected a non-empty string'')]"
proof -
  let ?m1 = "\<lparr> requestId = Some ''u1'', type = ''INJECT_CSS'', data = Some (JStr []) \<rparr>"
  let ?m2 = "\<lparr> requestId = Some ''u2'', type = ''INJECT_CSS'', data = Some (JNum 5) \<rparr>"
  have t: "typeof (Some (JNum 5)) \<noteq> ''string''" by simp
  have "type ?m1 = ''INJECT_CSS''"
    and "data ?m1 = Some (JStr []) \<or> typeof (data ?m1) \<noteq> ''string''" by simp_all
  note A = invalid_css_is_refused [OF this, of connected_agent]
  have "type ?m2 = ''INJECT_CSS''"
    and "data ?m2 = Some (JStr []) \<or> typeof (data ?m2) \<noteq> ''string''" by simp_all
  note B = invalid_css_is_refused [OF this, of connected_agent]
  from A have a1: "doc (handleMessage ?m1 connected_agent) = doc connected_agent" by blast
  from A have "ws connected_agent = Some 0 \<and> wsState connected_agent 0 = OPEN \<and>
      requestId ?m1 = Some ''u1'' \<and> ''u1'' \<noteq> [] \<longrightarrow>
      outbox (handleMessage ?m1 connected_agent) =
        outbox connected_agent @ [(0, ErrorResponse ''u1'' ''Invalid CSS: expected a non-empty string'')]"
    by blast
  then have a2: "outbox (handleMessage ?m1 connected_agent) =
        [(0, ErrorResponse ''u1'' ''Invalid CSS: expected a non-empty string'')]"
    by (simp add: connected_agent_eval)
  from B have b1: "doc (handleMessage ?m2 connected_agent) = doc connected_agent" by blast
  from B have "ws connected_agent = Some 0 \<and> wsState connected_agent 0 = OPEN \<and>
      requestId ?m2 = Some ''u2'' \<and> ''u2'' \<noteq> [] \<longrightarrow>
      outbox (handleMessage ?m2 connected_agent) =
        outbox connected_agent @ [(0, ErrorResponse ''u2'' ''Invalid CSS: expected a non-empty string'')]"
    by blast
  then have b2: "outbox (handleMessage ?m2 connected_agent) =
        [(0, ErrorResponse ''u2'' ''Invalid CSS: expected a non-empty string'')]"
    by (simp add: connected_agent_eval)
  from t a1 a2 b1 b2 show ?thesis
    by (simp add: connected_agent_eval themed_page_def)
qed

end
